theory Spec2Isabelle
  imports Main "HOL-Library.Word"
begin

section \<open>Values of the trie differ (mpt/trie\_diff.py)\<close>

text \<open>
  Python \<open>bytes\<close> are lists of 8-bit words. A nibble path is a \<open>bytes\<close> value whose
  elements are below 16; \<open>bytes([i])\<close> is the one-element list \<open>nibble i\<close>.
\<close>

type_synonym byte = "8 word"
type_synonym bytes = "byte list"
type_synonym address = bytes
type_synonym u256 = "256 word"

text \<open>
  The exceptions the module and the functions it calls can raise. \<open>RecursionError\<close> is
  what the interpreter raises when the nesting of calls passes its limit; the model counts
  the nested activations of \<open>_compute_diff\<close> against a depth given by the caller.
\<close>

datatype error =
    ValueError string
  | KeyError
  | IndexError
  | AttributeError
  | TypeError
  | OverflowError
  | DecodingError
  | RecursionError

text \<open>
  What \<open>rlp.decode\<close> yields: a byte string or a list of such values. An inline node
  reference is such a list.
\<close>

datatype extended = EBytes bytes | EList "extended list"

text \<open>
  The three node classes of \<open>ethereum.cancun.trie\<close> and the references \<open>resolve\<close> accepts:
  \<open>None\<close>, a byte string (empty, or a 32-byte hash), a decoded list, or a node object.
\<close>

datatype leaf_node = LeafNode (rest_of_key: bytes) (leaf_value: bytes)

datatype node =
    Leaf leaf_node
  | ExtensionNode bytes ref
  | BranchNode "ref list" bytes
and ref =
    RNone
  | RBytes bytes
  | RList "extended list"
  | RNode node

text \<open>
  Python compares an \<open>int\<close> with a \<open>bytes\<close> object by \<open>==\<close> without raising: values of
  different classes are unequal. \<open>key_segment[0]\<close> is an \<open>int\<close>, \<open>bytes([i])\<close> is a
  \<open>bytes\<close>; the comparison of the two is the equality of this type.
\<close>

datatype pyval = PyInt int | PyBytes bytes

record account =
  nonce :: nat
  balance :: u256
  code_hash :: bytes
  storage_root :: bytes
  code :: "bytes option"

text \<open>
  The fields of the dataclass \<open>StateDiff\<close>. \<open>_storage_tries\<close> holds, per address, a
  dictionary from storage key to the pair (pre, post), as the code writes it.
\<close>

record StateDiff =
  main_trie :: "address \<rightharpoonup> (account option \<times> account option)"
  storage_tries :: "address \<rightharpoonup> (bytes \<rightharpoonup> (u256 option \<times> u256 option))"
  nodes :: "bytes \<rightharpoonup> node"
  address_preimages :: "bytes \<rightharpoonup> address"
  storage_key_preimages :: "bytes \<rightharpoonup> bytes"

text \<open>
  The functions the module imports and whose code is not in the source tree:
  \<open>check_branch_node\<close>, \<open>deserialize_to_internal_node\<close> and \<open>nibble_list_to_bytes\<close> of
  \<open>mpt.utils\<close>, \<open>Account.from_rlp\<close> and \<open>rlp.decode\<close>. The walker takes them as a
  parameter; each may raise.
\<close>

record externals =
  check_branch_node :: "node \<Rightarrow> error + unit"
  deserialize_to_internal_node :: "extended list \<Rightarrow> error + node"
  nibble_list_to_bytes :: "bytes \<Rightarrow> error + bytes"
  account_from_rlp :: "bytes \<Rightarrow> error + account"
  rlp_decode :: "bytes \<Rightarrow> error + extended"

record EthereumTrieTransitionDB =
  db_nodes :: "bytes \<rightharpoonup> node"
  db_address_preimages :: "bytes \<rightharpoonup> address"
  db_storage_key_preimages :: "bytes \<rightharpoonup> bytes"
  state_root :: bytes
  post_state_root :: bytes

section \<open>Sequencing, loops and indexing\<close>

definition bindE :: "error + 'a \<Rightarrow> ('a \<Rightarrow> error + 'b) \<Rightarrow> error + 'b" where
  "bindE m f = (case m of Inl e \<Rightarrow> Inl e | Inr x \<Rightarrow> f x)"

text \<open>A \<open>for\<close> loop whose body may raise: the first exception ends it.\<close>

primrec for_each :: "'i list \<Rightarrow> ('i \<Rightarrow> 's \<Rightarrow> error + 's) \<Rightarrow> 's \<Rightarrow> error + 's" where
  "for_each [] f s = Inr s"
| "for_each (i # rest) f s = bindE (f i s) (for_each rest f)"

text \<open>\<open>xs[i]\<close> for a non-negative index: IndexError out of range.\<close>

definition getitem :: "'a list \<Rightarrow> nat \<Rightarrow> error + 'a" where
  "getitem xs i = (if i < length xs then Inr (xs ! i) else Inl IndexError)"

definition getkey :: "('k \<rightharpoonup> 'v) \<Rightarrow> 'k \<Rightarrow> error + 'v" where
  "getkey m k = (case m k of None \<Rightarrow> Inl KeyError | Some v \<Rightarrow> Inr v)"

definition startswith :: "bytes \<Rightarrow> bytes \<Rightarrow> bool" where
  "startswith xs p = (take (length p) xs = p)"

definition nibble :: "nat \<Rightarrow> bytes" where
  "nibble i = [of_nat i]"

section \<open>resolve\<close>

definition resolve :: "externals \<Rightarrow> ref \<Rightarrow> (bytes \<rightharpoonup> node) \<Rightarrow> error + node option" where
  "resolve X node store =
     (case node of
        RNone \<Rightarrow> Inr None
      | RBytes b \<Rightarrow>
          if b = [] then Inr None
          else if length b = 32 then Inr (store b)
          else Inl (ValueError ''Invalid node type'')
      | RNode n \<Rightarrow> Inr (Some n)
      | RList xs \<Rightarrow> bindE (deserialize_to_internal_node X xs) (\<lambda>n. Inr (Some n)))"

section \<open>StateDiff.\_compute\_diff\<close>

type_synonym 's walk = "ref \<Rightarrow> ref \<Rightarrow> bytes \<Rightarrow> 's \<Rightarrow> error + 's"
type_synonym 's leaf_handler =
  "bytes \<Rightarrow> leaf_node option \<Rightarrow> leaf_node option \<Rightarrow> 's \<Rightarrow> error + 's"

text \<open>
  \<open>r_node.key_segment = r_node.key_segment[1:]\<close> assigns a field of the object
  \<open>r_node\<close>. When the right reference is a hash, that object is the one the node store
  holds under the hash, so the store shows the assignment afterwards; a node object
  passed as the reference itself, or decoded from an inline list, belongs to the caller
  or to nobody.
\<close>

definition assign_key_segment ::
  "ref \<Rightarrow> bytes \<Rightarrow> ref \<Rightarrow> 'a StateDiff_scheme \<Rightarrow> 'a StateDiff_scheme" where
  "assign_key_segment right ks sub s =
     (case right of
        RBytes h \<Rightarrow> s\<lparr>nodes := (nodes s)(h \<mapsto> ExtensionNode ks sub)\<rparr>
      | _ \<Rightarrow> s)"

text \<open>
  The loop of the case (BranchNode, ExtensionNode). The key segment of \<open>r_node\<close> is
  carried from one turn to the next, since the loop body assigns it.
\<close>

primrec branch_extension_loop ::
  "'a StateDiff_scheme walk \<Rightarrow> ref list \<Rightarrow> ref \<Rightarrow> ref \<Rightarrow> bytes \<Rightarrow> nat list \<Rightarrow> bytes \<Rightarrow>
   'a StateDiff_scheme \<Rightarrow> error + 'a StateDiff_scheme" where
  "branch_extension_loop rec l_subnodes right sub path [] ks s = Inr s"
| "branch_extension_loop rec l_subnodes right sub path (i # rest) ks s =
     bindE (getitem ks 0) (\<lambda>k0.
       if PyInt (uint k0) = PyBytes (nibble i) then
         bindE (getitem l_subnodes i) (\<lambda>l.
         bindE (rec l sub (path @ nibble i) (assign_key_segment right (drop 1 ks) sub s))
           (branch_extension_loop rec l_subnodes right sub path rest (drop 1 ks)))
       else
         bindE (getitem l_subnodes i) (\<lambda>l.
         bindE (rec l RNone (path @ nibble i) s)
           (branch_extension_loop rec l_subnodes right sub path rest ks)))"

text \<open>
  The \<open>match\<close> statement on the two resolved nodes, in the order of the source. \<open>rec\<close> is
  the recursive call \<open>self._compute_diff\<close>, \<open>h\<close> is \<open>process_leaf_diff\<close>. The sixteen
  cases cover every pair, so the final \<open>case _\<close> of the source is never taken.
\<close>

definition dispatch ::
  "externals \<Rightarrow> 'a StateDiff_scheme walk \<Rightarrow> 'a StateDiff_scheme leaf_handler \<Rightarrow>
   node option \<Rightarrow> node option \<Rightarrow> ref \<Rightarrow> bytes \<Rightarrow> 'a StateDiff_scheme \<Rightarrow>
   error + 'a StateDiff_scheme" where
  "dispatch X rec h l_node r_node right path s =
     (case (l_node, r_node) of
        (None, None) \<Rightarrow> Inr s
      | (None, Some (Leaf r)) \<Rightarrow>
          bindE (nibble_list_to_bytes X (path @ rest_of_key r)) (\<lambda>full_path.
            h full_path None (Some r) s)
      | (None, Some (ExtensionNode r_ks r_sub)) \<Rightarrow>
          rec RNone r_sub (path @ r_ks) s
      | (None, Some (BranchNode r_subs r_val)) \<Rightarrow>
          bindE (check_branch_node X (BranchNode r_subs r_val)) (\<lambda>_.
            for_each [0..<16] (\<lambda>i s.
              bindE (getitem r_subs i) (\<lambda>r. rec RNone r (path @ nibble i) s)) s)
      | (Some (Leaf l), None) \<Rightarrow>
          bindE (nibble_list_to_bytes X (path @ rest_of_key l)) (\<lambda>full_path.
            h full_path (Some l) None s)
      | (Some (Leaf l), Some (Leaf r)) \<Rightarrow>
          if rest_of_key l = rest_of_key r then
            (if leaf_value l \<noteq> leaf_value r then
               bindE (nibble_list_to_bytes X (path @ rest_of_key l)) (\<lambda>full_path.
                 h full_path (Some l) (Some r) s)
             else Inr s)
          else
            bindE (nibble_list_to_bytes X (path @ rest_of_key l)) (\<lambda>path_left.
            bindE (nibble_list_to_bytes X (path @ rest_of_key r)) (\<lambda>path_right.
            bindE (h path_left (Some l) None s) (\<lambda>s.
              h path_right None (Some r) s)))
      | (Some (Leaf l), Some (ExtensionNode r_ks r_sub)) \<Rightarrow>
          if startswith (rest_of_key l) r_ks then
            rec (RNode (Leaf (LeafNode (drop (length r_ks) (rest_of_key l)) (leaf_value l))))
              r_sub (path @ r_ks) s
          else
            bindE (nibble_list_to_bytes X (path @ rest_of_key l)) (\<lambda>path_left.
            bindE (h path_left (Some l) None s) (\<lambda>s.
              rec RNone r_sub (path @ r_ks) s))
      | (Some (Leaf l), Some (BranchNode r_subs r_val)) \<Rightarrow>
          bindE (check_branch_node X (BranchNode r_subs r_val)) (\<lambda>_.
            for_each [0..<16] (\<lambda>i s.
              bindE (getitem (rest_of_key l) 0) (\<lambda>k0.
                if int i \<noteq> uint k0 then
                  bindE (getitem r_subs i) (\<lambda>r. rec RNone r (path @ nibble i) s)
                else
                  bindE (getitem r_subs i) (\<lambda>r.
                    rec (RNode (Leaf (LeafNode (drop 1 (rest_of_key l)) (leaf_value l))))
                      r (path @ nibble i) s))) s)
      | (Some (ExtensionNode l_ks l_sub), None) \<Rightarrow>
          rec l_sub RNone (path @ l_ks) s
      | (Some (ExtensionNode l_ks l_sub), Some (Leaf r)) \<Rightarrow>
          if startswith (rest_of_key r) l_ks then
            rec l_sub
              (RNode (Leaf (LeafNode (drop (length l_ks) (rest_of_key r)) (leaf_value r))))
              (path @ l_ks) s
          else
            bindE (nibble_list_to_bytes X (path @ rest_of_key r)) (\<lambda>path_right.
            bindE (h path_right None (Some r) s) (\<lambda>s.
              rec l_sub RNone (path @ l_ks) s))
      | (Some (ExtensionNode l_ks l_sub), Some (ExtensionNode r_ks r_sub)) \<Rightarrow>
          if l_ks = r_ks then rec l_sub r_sub (path @ l_ks) s
          else if startswith l_ks r_ks then
            rec (RNode (ExtensionNode (drop (length r_ks) l_ks) l_sub)) r_sub (path @ r_ks) s
          else if startswith r_ks l_ks then
            rec l_sub (RNode (ExtensionNode (drop (length l_ks) r_ks) r_sub)) (path @ l_ks) s
          else
            bindE (rec l_sub RNone (path @ l_ks) s) (\<lambda>s.
              rec RNone r_sub (path @ r_ks) s)
      | (Some (ExtensionNode l_ks l_sub), Some (BranchNode r_subs r_val)) \<Rightarrow>
          bindE (check_branch_node X (BranchNode r_subs r_val)) (\<lambda>_.
            for_each [0..<16] (\<lambda>i s.
              bindE (getitem l_ks 0) (\<lambda>k0.
                if PyInt (uint k0) = PyBytes (nibble i) then
                  bindE (getitem r_subs i) (\<lambda>r.
                    rec (if length l_ks = 1 then l_sub
                         else RNode (ExtensionNode (drop 1 l_ks) l_sub))
                      r (path @ nibble i) s)
                else
                  bindE (getitem r_subs i) (\<lambda>r. rec RNone r (path @ nibble i) s))) s)
      | (Some (BranchNode l_subs l_val), None) \<Rightarrow>
          bindE (check_branch_node X (BranchNode l_subs l_val)) (\<lambda>_.
            for_each [0..<16] (\<lambda>i s.
              bindE (getitem l_subs i) (\<lambda>l. rec l RNone (path @ nibble i) s)) s)
      | (Some (BranchNode l_subs l_val), Some (Leaf r)) \<Rightarrow>
          bindE (check_branch_node X (Leaf r)) (\<lambda>_.
            for_each [0..<16] (\<lambda>i s.
              bindE (getitem (rest_of_key r) 0) (\<lambda>k0.
                if int i \<noteq> uint k0 then
                  bindE (getitem l_subs i) (\<lambda>l. rec l RNone (path @ nibble i) s)
                else
                  bindE (getitem l_subs i) (\<lambda>l.
                    rec l
                      (RNode (Leaf (LeafNode (drop 1 (rest_of_key r)) (leaf_value r))))
                      (path @ nibble i) s))) s)
      | (Some (BranchNode l_subs l_val), Some (ExtensionNode r_ks r_sub)) \<Rightarrow>
          bindE (check_branch_node X (ExtensionNode r_ks r_sub)) (\<lambda>_.
            branch_extension_loop rec l_subs right r_sub path [0..<16] r_ks s)
      | (Some (BranchNode l_subs l_val), Some (BranchNode r_subs r_val)) \<Rightarrow>
          bindE (check_branch_node X (BranchNode l_subs l_val)) (\<lambda>_.
          bindE (check_branch_node X (BranchNode r_subs r_val)) (\<lambda>_.
            for_each [0..<16] (\<lambda>i s.
              bindE (getitem l_subs i) (\<lambda>l.
              bindE (getitem r_subs i) (\<lambda>r. rec l r (path @ nibble i) s))) s)))"

text \<open>
  \<open>_compute_diff\<close> itself. The first argument after the handler is the number of nested
  activations still allowed; the handler is told how many remain for the calls it makes.
\<close>

fun compute_diff ::
  "externals \<Rightarrow> (nat \<Rightarrow> 'a StateDiff_scheme leaf_handler) \<Rightarrow> nat \<Rightarrow>
   ref \<Rightarrow> ref \<Rightarrow> bytes \<Rightarrow> 'a StateDiff_scheme \<Rightarrow> error + 'a StateDiff_scheme" where
  "compute_diff X process_leaf_diff 0 left right path s = Inl RecursionError"
| "compute_diff X process_leaf_diff (Suc depth) left right path s =
     (if left = right then Inr s
      else
        bindE (resolve X left (nodes s)) (\<lambda>l_node.
        bindE (resolve X right (nodes s)) (\<lambda>r_node.
          dispatch X (\<lambda>l r p s'. compute_diff X process_leaf_diff depth l r p s')
            (process_leaf_diff depth) l_node r_node right path s)))"

section \<open>The leaf handlers\<close>

text \<open>
  \<open>U256(v)\<close> and \<open>Uint(v)\<close> of \<open>ethereum_types.numeric\<close> accept an \<open>int\<close> in the range
  of the type and raise OverflowError otherwise; \<open>int.from_bytes(b, "big")\<close> reads a
  byte string as a big-endian number.
\<close>

definition U256 :: "int \<Rightarrow> error + u256" where
  "U256 v = (if 0 \<le> v \<and> v < 2 ^ 256 then Inr (word_of_int v) else Inl OverflowError)"


definition int_from_bytes_big :: "bytes \<Rightarrow> nat" where
  "int_from_bytes_big b = foldl (\<lambda>acc x. acc * 256 + unat x) 0 b"

text \<open>
  \<open>U256(int.from_bytes(rlp.decode(leaf.value), "big"))\<close>. \<open>int.from_bytes\<close> turns its
  argument into \<open>bytes\<close> first: the empty list gives 0, a list holding byte strings or
  lists raises TypeError.
\<close>

definition decode_storage_value :: "externals \<Rightarrow> leaf_node \<Rightarrow> error + u256" where
  "decode_storage_value X leaf =
     bindE (rlp_decode X (leaf_value leaf)) (\<lambda>d.
       case d of
         EBytes b \<Rightarrow> U256 (int (int_from_bytes_big b))
       | EList [] \<Rightarrow> U256 0
       | EList (x # xs) \<Rightarrow> Inl TypeError)"

text \<open>
  \<open>if address not in self._storage_tries: self._storage_tries[address] = {}\<close> followed by
  \<open>self._storage_tries[address][key] = v\<close>.
\<close>

definition set_storage ::
  "address \<Rightarrow> bytes \<Rightarrow> (u256 option \<times> u256 option) \<Rightarrow>
   'a StateDiff_scheme \<Rightarrow> 'a StateDiff_scheme" where
  "set_storage address key v s =
     (let inner = (case storage_tries s address of None \<Rightarrow> Map.empty | Some m \<Rightarrow> m)
      in s\<lparr>storage_tries := (storage_tries s)(address \<mapsto> inner(key \<mapsto> v))\<rparr>)"

definition optionally :: "('a \<Rightarrow> error + 'b) \<Rightarrow> 'a option \<Rightarrow> error + 'b option" where
  "optionally f x = (case x of None \<Rightarrow> Inr None | Some a \<Rightarrow> bindE (f a) (\<lambda>b. Inr (Some b)))"

definition process_storage_diff ::
  "externals \<Rightarrow> address \<Rightarrow> 'a StateDiff_scheme leaf_handler" where
  "process_storage_diff X address path left right s =
     bindE (getkey (storage_key_preimages s) path) (\<lambda>key.
     bindE (optionally (decode_storage_value X) left) (\<lambda>left_decoded.
     bindE (optionally (decode_storage_value X) right) (\<lambda>right_decoded.
       if left = None then Inr (set_storage address key (None, right_decoded) s)
       else if right = None then Inr (set_storage address key (left_decoded, None) s)
       else Inr (set_storage address key (left_decoded, right_decoded) s))))"

definition storage_root_ref :: "account option \<Rightarrow> ref" where
  "storage_root_ref a = (case a of None \<Rightarrow> RNone | Some acc \<Rightarrow> RBytes (storage_root acc))"

definition process_account_diff ::
  "externals \<Rightarrow> nat \<Rightarrow> 'a StateDiff_scheme leaf_handler" where
  "process_account_diff X depth path left right s =
     bindE (getkey (address_preimages s) path) (\<lambda>address.
     bindE (optionally (\<lambda>l. account_from_rlp X (leaf_value l)) left) (\<lambda>left_account.
     bindE (optionally (\<lambda>r. account_from_rlp X (leaf_value r)) right) (\<lambda>right_account.
       compute_diff X (\<lambda>_. process_storage_diff X address) depth
         (storage_root_ref left_account) (storage_root_ref right_account) []
         (s\<lparr>main_trie := (main_trie s)(address \<mapsto> (left_account, right_account))\<rparr>))))"

section \<open>StateDiff.from\_tries\<close>

definition from_tries :: "externals \<Rightarrow> nat \<Rightarrow> EthereumTrieTransitionDB \<Rightarrow> error + StateDiff" where
  "from_tries X depth tries =
     compute_diff X (process_account_diff X) depth
       (RBytes (state_root tries)) (RBytes (post_state_root tries)) []
       \<lparr>main_trie = Map.empty, storage_tries = Map.empty, nodes = db_nodes tries,
        address_preimages = db_address_preimages tries,
        storage_key_preimages = db_storage_key_preimages tries\<rparr>"

section \<open>StateDiff.from\_data\<close>


record storage_json =
  json_storageKey :: string
  json_preValue :: string
  json_postValue :: string


text \<open>
  The built-in \<open>int(text, 16)\<close> and the \<open>fromhex\<close> constructors of the fixed-size byte
  types, taken as parameters; each raises on text it does not accept.
\<close>

record parsers =
  int_base16 :: "string \<Rightarrow> error + int"
  address_fromhex :: "string \<Rightarrow> error + address"
  hash32_fromhex :: "string \<Rightarrow> error + bytes"
  bytes32_fromhex :: "string \<Rightarrow> error + bytes"


definition zero_as_none :: "int \<Rightarrow> error + u256 option" where
  "zero_as_none v = (if v = 0 then Inr None else bindE (U256 v) (\<lambda>w. Inr (Some w)))"

text \<open>The body of the loop over \<open>diff["storage"]\<close>.\<close>

definition parse_storage_diff ::
  "parsers \<Rightarrow> address \<Rightarrow> storage_json \<Rightarrow> StateDiff \<Rightarrow> error + StateDiff" where
  "parse_storage_diff P address storage_diff state_diff =
     bindE (bytes32_fromhex P (drop 2 (json_storageKey storage_diff))) (\<lambda>key.
     bindE (int_base16 P (drop 2 (json_preValue storage_diff))) (\<lambda>pre_int.
     bindE (int_base16 P (drop 2 (json_postValue storage_diff))) (\<lambda>post_int.
     bindE (zero_as_none pre_int) (\<lambda>pre.
     bindE (zero_as_none post_int) (\<lambda>post.
       Inr (set_storage address key (pre, post) state_diff))))))"






section \<open>Helpers of mpt.utils, from their description\<close>

text \<open>
  Modelled from the spec: \<open>check_branch_node\<close> of \<open>mpt.utils\<close>, whose code is not in the
  source tree. The spec says only that it asserts that a branch's \<open>value\<close> is empty. The
  walker also passes it a LeafNode, which has a field \<open>value\<close> too, so that the same test
  reads the leaf's value, and an ExtensionNode, which has no such field.
\<close>

definition check_branch_node_spec :: "node \<Rightarrow> error + unit" where
  "check_branch_node_spec n =
     (case n of
        BranchNode subs v \<Rightarrow>
          if v = [] then Inr () else Inl (ValueError ''Branch node has a value'')
      | Leaf l \<Rightarrow>
          if leaf_value l = [] then Inr () else Inl (ValueError ''Branch node has a value'')
      | ExtensionNode ks sub \<Rightarrow> Inl AttributeError)"

text \<open>
  Modelled from the spec: \<open>nibble_list_to_bytes\<close> of \<open>mpt.utils\<close>, whose code is not in
  the source tree: two nibbles per output byte, the first one in the high half. The spec
  says the nibble count at a leaf is even and gives no result for an odd one; here an odd
  count raises.
\<close>

fun nibble_list_to_bytes_spec :: "bytes \<Rightarrow> error + bytes" where
  "nibble_list_to_bytes_spec [] = Inr []"
| "nibble_list_to_bytes_spec [x] = Inl (ValueError ''odd number of nibbles'')"
| "nibble_list_to_bytes_spec (x # y # rest) =
     bindE (nibble_list_to_bytes_spec rest) (\<lambda>packed. Inr ((x * 16 + y) # packed))"

section \<open>Fixtures for the concrete runs\<close>

text \<open>
  A state that also keeps the list of the calls a leaf handler received, and the handler
  that records them.
\<close>

record Traced = StateDiff +
  calls :: "(bytes \<times> leaf_node option \<times> leaf_node option) list"

definition record_call :: "nat \<Rightarrow> Traced leaf_handler" where
  "record_call depth path left right s = Inr (s\<lparr>calls := calls s @ [(path, left, right)]\<rparr>)"

text \<open>
  Stand-ins for the decoders of the libraries in the concrete runs: no inline node decodes,
  an account leaf's payload is read as the account's storage root, a storage leaf's payload
  is the value's byte string.
\<close>

definition fixture :: externals where
  "fixture =
     \<lparr>check_branch_node = check_branch_node_spec,
      deserialize_to_internal_node = (\<lambda>xs. Inl DecodingError),
      nibble_list_to_bytes = nibble_list_to_bytes_spec,
      account_from_rlp = (\<lambda>v. Inr \<lparr>nonce = 0, balance = 0, code_hash = [],
                                  storage_root = v, code = None\<rparr>),
      rlp_decode = (\<lambda>v. Inr (EBytes v))\<rparr>"



text \<open>A 32-byte string made of one byte, standing for a hash.\<close>

definition hash_of :: "byte \<Rightarrow> bytes" where
  "hash_of b = replicate 32 b"

definition empty_state :: "(bytes \<rightharpoonup> node) \<Rightarrow> Traced" where
  "empty_state store =
     \<lparr>main_trie = Map.empty, storage_tries = Map.empty, nodes = store,
      address_preimages = Map.empty, storage_key_preimages = Map.empty, calls = []\<rparr>"

section \<open>An example pair of account tries\<close>

text \<open>
  Keys are 64 nibbles wide. Before the block the trie holds two accounts whose keys start
  with the nibbles 1,5 and 1,6: the root is an extension over the nibble 1 leading to a
  branch. After the block a third account, whose key starts with the nibble 3, has been
  added: the root is a branch whose slot 1 holds the old branch, unchanged, and whose slot
  3 holds the new leaf. \<open>hash_of 0x56\<close> stands for the root of the empty storage trie; as
  in a real witness, the store has no node under it.
\<close>

definition leaf_A1 :: leaf_node where
  "leaf_A1 = LeafNode (replicate 62 7) (hash_of 0x56)"

definition leaf_A2 :: leaf_node where
  "leaf_A2 = LeafNode (replicate 62 8) (hash_of 0x56)"

definition leaf_B :: leaf_node where
  "leaf_B = LeafNode (9 # replicate 62 9) (hash_of 0x56)"

definition example_store :: "bytes \<rightharpoonup> node" where
  "example_store =
     [hash_of 0x01 \<mapsto> ExtensionNode [1] (RBytes (hash_of 0xB0)),
      hash_of 0x02 \<mapsto>
        BranchNode
          [RBytes [], RBytes (hash_of 0xB0), RBytes [], RBytes (hash_of 0xA3),
           RBytes [], RBytes [], RBytes [], RBytes [],
           RBytes [], RBytes [], RBytes [], RBytes [],
           RBytes [], RBytes [], RBytes [], RBytes []] [],
      hash_of 0xB0 \<mapsto>
        BranchNode
          [RBytes [], RBytes [], RBytes [], RBytes [],
           RBytes [], RBytes (hash_of 0xA1), RBytes (hash_of 0xA2), RBytes [],
           RBytes [], RBytes [], RBytes [], RBytes [],
           RBytes [], RBytes [], RBytes [], RBytes []] [],
      hash_of 0xA1 \<mapsto> Leaf leaf_A1,
      hash_of 0xA2 \<mapsto> Leaf leaf_A2,
      hash_of 0xA3 \<mapsto> Leaf leaf_B]"

definition key_A1 :: bytes where
  "key_A1 = 0x15 # replicate 31 0x77"

definition key_A2 :: bytes where
  "key_A2 = 0x16 # replicate 31 0x88"

definition key_B :: bytes where
  "key_B = 0x39 # replicate 31 0x99"






text \<open>The database of the example, with the preimages of its three keys.\<close>

definition addr_of :: "byte \<Rightarrow> address" where
  "addr_of b = replicate 20 b"

definition example_db :: EthereumTrieTransitionDB where
  "example_db =
     \<lparr>db_nodes = example_store,
      db_address_preimages =
        [key_A1 \<mapsto> addr_of 0xA1, key_A2 \<mapsto> addr_of 0xA2, key_B \<mapsto> addr_of 0xA3],
      db_storage_key_preimages = Map.empty,
      state_root = hash_of 0x01,
      post_state_root = hash_of 0x02\<rparr>"

definition example_account :: account where
  "example_account =
     \<lparr>nonce = 0, balance = 0, code_hash = [], storage_root = hash_of 0x56, code = None\<rparr>"

text \<open>
  An empty pre-state and a post-state of one account with one storage slot of value 5
  (scenario S3 of the spec), with the accumulator expected for it.
\<close>

definition created_account_db :: EthereumTrieTransitionDB where
  "created_account_db =
     \<lparr>db_nodes =
        [hash_of 0x10 \<mapsto> Leaf (LeafNode (replicate 64 1) (hash_of 0x20)),
         hash_of 0x20 \<mapsto> Leaf (LeafNode (replicate 64 2) [5])],
      db_address_preimages = [replicate 32 0x11 \<mapsto> addr_of 0xC1],
      db_storage_key_preimages = [replicate 32 0x22 \<mapsto> replicate 32 0xAA],
      state_root = hash_of 0x56,
      post_state_root = hash_of 0x10\<rparr>"

definition created_account_diff :: StateDiff where
  "created_account_diff =
     \<lparr>main_trie =
        [addr_of 0xC1 \<mapsto>
           (None, Some \<lparr>nonce = 0, balance = 0, code_hash = [],
                        storage_root = hash_of 0x20, code = None\<rparr>)],
      storage_tries = [addr_of 0xC1 \<mapsto> [replicate 32 0xAA \<mapsto> (None, Some 5)]],
      nodes = db_nodes created_account_db,
      address_preimages = db_address_preimages created_account_db,
      storage_key_preimages = db_storage_key_preimages created_account_db\<rparr>"

text \<open>
  Stand-ins for the parsers in the concrete run: they accept plain hexadecimal digits
  (Python's \<open>int\<close> and \<open>fromhex\<close> accept more, such as a sign or blanks).
\<close>

definition hex_digit :: "char \<Rightarrow> nat option" where
  "hex_digit c =
     (let n = (of_char c :: nat) in
      if 48 \<le> n \<and> n \<le> 57 then Some (n - 48)
      else if 97 \<le> n \<and> n \<le> 102 then Some (n - 87)
      else if 65 \<le> n \<and> n \<le> 70 then Some (n - 55)
      else None)"












section \<open>Tries of one key width\<close>

text \<open>
  A trie whose keys end after exactly \<open>w\<close> more nibbles: a leaf below the reference has a
  rest of key as long as what is left of \<open>w\<close> once the extensions and branches above it
  are taken off; an extension has a key segment of at least one nibble. An absent subtree
  qualifies, and so does a reference that \<open>resolve\<close> rejects, where the walk stops.
\<close>

function well_formed :: "externals \<Rightarrow> (bytes \<rightharpoonup> node) \<Rightarrow> nat \<Rightarrow> ref \<Rightarrow> bool" where
  "well_formed X store w ref =
     (case resolve X ref store of
        Inl e \<Rightarrow> True
      | Inr None \<Rightarrow> True
      | Inr (Some (Leaf l)) \<Rightarrow> length (rest_of_key l) = w
      | Inr (Some (ExtensionNode ks sub)) \<Rightarrow>
          if ks = [] \<or> w < length ks then False
          else well_formed X store (w - length ks) sub
      | Inr (Some (BranchNode subs v)) \<Rightarrow>
          if w = 0 then False
          else list_all (well_formed X store (w - 1)) subs)"
  by pat_completeness auto
termination
  by (relation "measure (\<lambda>(X, store, w, ref). w)") (auto simp add: neq_Nil_conv)

declare well_formed.simps [simp del]

text \<open>The same condition on a node that has been resolved.\<close>

definition well_formed_node :: "externals \<Rightarrow> (bytes \<rightharpoonup> node) \<Rightarrow> nat \<Rightarrow> node option \<Rightarrow> bool" where
  "well_formed_node X store w n =
     (case n of
        None \<Rightarrow> True
      | Some (Leaf l) \<Rightarrow> length (rest_of_key l) = w
      | Some (ExtensionNode ks sub) \<Rightarrow>
          ks \<noteq> [] \<and> length ks \<le> w \<and> well_formed X store (w - length ks) sub
      | Some (BranchNode subs v) \<Rightarrow>
          0 < w \<and> list_all (well_formed X store (w - 1)) subs)"

text \<open>A handler and a packer that refuse any other width.\<close>

definition only_keys_of_32 ::
  "(nat \<Rightarrow> 's leaf_handler) \<Rightarrow> nat \<Rightarrow> 's leaf_handler" where
  "only_keys_of_32 h d k l r t =
     (if length k = 32 then h d k l r t else Inl (ValueError ''key of another width''))"

definition only_paths_of_64 :: "(bytes \<Rightarrow> error + bytes) \<Rightarrow> bytes \<Rightarrow> error + bytes" where
  "only_paths_of_64 pack k =
     (if length k = 64 then pack k else Inl (ValueError ''path of another width''))"

section \<open>Basic facts\<close>

lemma bindE_Inl [simp]: "bindE (Inl e) f = Inl e"
  by (simp add: bindE_def)

lemma bindE_Inr [simp]: "bindE (Inr x) f = f x"
  by (simp add: bindE_def)

lemma bindE_eq_Inr: "bindE m f = Inr y \<longleftrightarrow> (\<exists>x. m = Inr x \<and> f x = Inr y)"
  by (cases m) simp_all

lemma hash_of_eq [simp]: "hash_of a = hash_of b \<longleftrightarrow> a = b"
  by (simp add: hash_of_def)

lemma hash_of_length [simp]: "length (hash_of a) = 32"
  by (simp add: hash_of_def)

lemma hash_of_not_empty [simp]: "hash_of a \<noteq> []"
  by (simp add: hash_of_def)

lemma range16: "[0..<16] = [0, 1, 2, 3, 4, 5, 6, 7, 8, 9, 10, 11, 12, 13, 14, 15]"
  by (simp add: upt_rec)

section \<open>The fast path\<close>

text \<open>
  C5. With equal references the walker returns the state it was given, whatever the
  references resolve to (or fail to) and whatever the handler does: nothing is resolved
  and no handler runs. So when \<open>state_root\<close> equals \<open>post_state_root\<close>, \<open>from_tries\<close>
  returns the accumulator it built, with empty \<open>_main_trie\<close> and \<open>_storage_tries\<close>, for
  any content of the node store.
\<close>

theorem equal_refs_return_at_once:
  "compute_diff X h (Suc depth) r r path s = Inr s \<and>
   (state_root tries = post_state_root tries \<longrightarrow>
      from_tries X (Suc depth) tries =
        Inr \<lparr>main_trie = Map.empty, storage_tries = Map.empty, nodes = db_nodes tries,
             address_preimages = db_address_preimages tries,
             storage_key_preimages = db_storage_key_preimages tries\<rparr>)"
  by (simp add: from_tries_def)

text \<open>
  The instance: both references are the 5-byte string that \<open>resolve\<close> rejects, the handler
  always raises, and the walk still returns; and a database whose two roots are one hash
  missing from its empty store.
\<close>

theorem equal_refs_return_at_once_witness:
  "resolve fixture (RBytes [1, 2, 3, 4, 5]) Map.empty = Inl (ValueError ''Invalid node type'') \<and>
   compute_diff fixture (\<lambda>d p l r s. Inl KeyError) (Suc 0)
     (RBytes [1, 2, 3, 4, 5]) (RBytes [1, 2, 3, 4, 5]) [] (empty_state Map.empty)
     = Inr (empty_state Map.empty) \<and>
   from_tries fixture (Suc 0)
     \<lparr>db_nodes = Map.empty, db_address_preimages = Map.empty,
      db_storage_key_preimages = Map.empty,
      state_root = hash_of 1, post_state_root = hash_of 1\<rparr>
     = Inr \<lparr>main_trie = Map.empty, storage_tries = Map.empty, nodes = Map.empty,
            address_preimages = Map.empty, storage_key_preimages = Map.empty\<rparr>"
  using equal_refs_return_at_once
    [of fixture "\<lambda>d p l r s. Inl KeyError" 0 "RBytes [1, 2, 3, 4, 5]" "[]"
        "empty_state Map.empty"
        "\<lparr>db_nodes = Map.empty, db_address_preimages = Map.empty,
          db_storage_key_preimages = Map.empty,
          state_root = hash_of 1, post_state_root = hash_of 1\<rparr>"]
  by (simp add: resolve_def)

section \<open>Facts for the concrete runs\<close>

lemma pack_replicate:
  "nibble_list_to_bytes_spec (replicate (2 * n) x) = Inr (replicate n (x * 16 + x))"
  by (induction n) simp_all

lemma pack_replicate_62:
  "nibble_list_to_bytes_spec (replicate 62 x) = Inr (replicate 31 (x * 16 + x))"
  using pack_replicate [of 31 x] by simp

lemmas run_simps =
  range16 resolve_def dispatch_def getitem_def nibble_def fixture_def
  check_branch_node_spec_def record_call_def empty_state_def pack_replicate_62

lemma absent_slot_left [simp]:
  "compute_diff X h (Suc n) RNone (RBytes []) path s = Inr s"
  by (simp add: resolve_def dispatch_def)

lemma absent_slot_right [simp]:
  "compute_diff X h (Suc n) (RBytes []) RNone path s = Inr s"
  by (simp add: resolve_def dispatch_def)

section \<open>The Leaf/Leaf case\<close>

lemma leaf_leaf_dispatch:
  assumes "l_ref \<noteq> r_ref"
    and "resolve X l_ref (nodes s) = Inr (Some (Leaf l))"
    and "resolve X r_ref (nodes s) = Inr (Some (Leaf r))"
  shows "compute_diff X h (Suc depth) l_ref r_ref path s =
     (if rest_of_key l = rest_of_key r then
        (if leaf_value l = leaf_value r then Inr s
         else bindE (nibble_list_to_bytes X (path @ rest_of_key l)) (\<lambda>k.
                h depth k (Some l) (Some r) s))
      else
        bindE (nibble_list_to_bytes X (path @ rest_of_key l)) (\<lambda>kl.
        bindE (nibble_list_to_bytes X (path @ rest_of_key r)) (\<lambda>kr.
        bindE (h depth kl (Some l) None s) (\<lambda>s'. h depth kr None (Some r) s'))))"
  using assms by (simp add: dispatch_def)

text \<open>
  C6. Two different references resolve to leaves \<open>l\<close> and \<open>r\<close>, and the packed keys of
  \<open>path + l.rest_of_key\<close> and \<open>path + r.rest_of_key\<close> are \<open>kl\<close> and \<open>kr\<close>. The handler that
  records its calls then receives: nothing when the rests of key and the values are equal;
  one call with both leaves at \<open>kl\<close> when only the values differ; and when the rests of
  key differ, the deletion (l, None) at \<open>kl\<close> followed by the creation (None, r) at \<open>kr\<close>.
\<close>

theorem leaf_leaf_calls:
  assumes "l_ref \<noteq> r_ref"
    and "resolve X l_ref (nodes s) = Inr (Some (Leaf l))"
    and "resolve X r_ref (nodes s) = Inr (Some (Leaf r))"
    and "nibble_list_to_bytes X (path @ rest_of_key l) = Inr kl"
    and "nibble_list_to_bytes X (path @ rest_of_key r) = Inr kr"
  shows "compute_diff X record_call (Suc depth) l_ref r_ref path s =
     Inr (s\<lparr>calls := calls s @
       (if rest_of_key l = rest_of_key r then
          (if leaf_value l = leaf_value r then [] else [(kl, Some l, Some r)])
        else [(kl, Some l, None), (kr, None, Some r)])\<rparr>)"
  unfolding leaf_leaf_dispatch [OF assms(1-3)] using assms(4,5)
  by (auto simp add: record_call_def)

theorem leaf_leaf_calls_witness:
  "compute_diff fixture record_call (Suc 0)
     (RBytes (hash_of 1)) (RNode (Leaf (LeafNode [2] [7]))) [1]
     (empty_state [hash_of 1 \<mapsto> Leaf (LeafNode [2] [7])])
   = Inr (empty_state [hash_of 1 \<mapsto> Leaf (LeafNode [2] [7])]) \<and>
   compute_diff fixture record_call (Suc 0)
     (RBytes (hash_of 1)) (RNode (Leaf (LeafNode [2] [8]))) [1]
     (empty_state [hash_of 1 \<mapsto> Leaf (LeafNode [2] [7])])
   = Inr ((empty_state [hash_of 1 \<mapsto> Leaf (LeafNode [2] [7])])
       \<lparr>calls := [([0x12], Some (LeafNode [2] [7]), Some (LeafNode [2] [8]))]\<rparr>) \<and>
   compute_diff fixture record_call (Suc 0)
     (RBytes (hash_of 1)) (RNode (Leaf (LeafNode [3] [7]))) [1]
     (empty_state [hash_of 1 \<mapsto> Leaf (LeafNode [2] [7])])
   = Inr ((empty_state [hash_of 1 \<mapsto> Leaf (LeafNode [2] [7])])
       \<lparr>calls := [([0x12], Some (LeafNode [2] [7]), None),
                  ([0x13], None, Some (LeafNode [3] [7]))]\<rparr>)"
  using
    leaf_leaf_calls [of "RBytes (hash_of 1)" "RNode (Leaf (LeafNode [2] [7]))" fixture
      "empty_state [hash_of 1 \<mapsto> Leaf (LeafNode [2] [7])]"
      "LeafNode [2] [7]" "LeafNode [2] [7]" "[1]" "[0x12]" "[0x12]" 0]
    leaf_leaf_calls [of "RBytes (hash_of 1)" "RNode (Leaf (LeafNode [2] [8]))" fixture
      "empty_state [hash_of 1 \<mapsto> Leaf (LeafNode [2] [7])]"
      "LeafNode [2] [7]" "LeafNode [2] [8]" "[1]" "[0x12]" "[0x12]" 0]
    leaf_leaf_calls [of "RBytes (hash_of 1)" "RNode (Leaf (LeafNode [3] [7]))" fixture
      "empty_state [hash_of 1 \<mapsto> Leaf (LeafNode [2] [7])]"
      "LeafNode [2] [7]" "LeafNode [3] [7]" "[1]" "[0x12]" "[0x13]" 0]
  by (simp add: resolve_def fixture_def empty_state_def)

section \<open>A hash that the store does not hold\<close>

lemma resolve_RNone [simp]: "resolve X RNone store = Inr None"
  by (simp add: resolve_def)

lemma resolve_missing:
  "length hsh = 32 \<Longrightarrow> store hsh = None \<Longrightarrow> resolve X (RBytes hsh) store = Inr None"
  by (auto simp add: resolve_def)

lemma dispatch_None_None [simp]: "dispatch X rec h None None right path s = Inr s"
  by (simp add: dispatch_def)

lemma dispatch_right_absent:
  "dispatch X rec h l_node None right path s = dispatch X rec h l_node None RNone path s"
  by (simp add: dispatch_def split: option.splits node.splits)

lemma missing_right:
  assumes "length hsh = 32" "nodes s hsh = None" "left \<noteq> RBytes hsh"
  shows "compute_diff X h (Suc n) left (RBytes hsh) path s =
         compute_diff X h (Suc n) left RNone path s"
proof (cases "left = RNone")
  case True
  then show ?thesis using assms by (simp add: resolve_missing)
next
  case False
  then show ?thesis using assms
    by (simp add: resolve_missing dispatch_right_absent [of _ _ _ _ "RBytes hsh"])
qed

lemma missing_left:
  assumes "length hsh = 32" "nodes s hsh = None" "right \<noteq> RBytes hsh"
  shows "compute_diff X h (Suc n) (RBytes hsh) right path s =
         compute_diff X h (Suc n) RNone right path s"
proof (cases "right = RNone")
  case True
  then show ?thesis using assms by (simp add: resolve_missing)
next
  case False
  then show ?thesis using assms by (auto simp add: resolve_missing)
qed

text \<open>
  C2, as the claim states it, fails. The post-state root \<open>hash_of 9\<close> is not in the store
  of the example and differs from the pre-state root, so the walker needs the node. The walk
  raises nothing: it returns, having reported the two accounts of the pre-state as deleted.
\<close>

theorem missing_root_is_walked_as_absent:
  "compute_diff fixture record_call (Suc (Suc (Suc 0)))
     (RBytes (hash_of 0x01)) (RBytes (hash_of 0x09)) [] (empty_state example_store)
   = Inr ((empty_state example_store)
       \<lparr>calls := [(key_A1, Some leaf_A1, None), (key_A2, Some leaf_A2, None)]\<rparr>)"
  by (simp add: run_simps example_store_def leaf_A1_def leaf_A2_def key_A1_def key_A2_def)

text \<open>
  C2, amended. \<open>resolve\<close> answers a 32-byte hash that the store does not hold with \<open>None\<close>
  (\<open>nodes.get\<close>), and the walker treats the reference exactly as it treats \<open>None\<close>, on
  either side: the subtree is walked as absent and no exception comes from the lookup.
\<close>

theorem missing_hash_is_none:
  assumes "length hsh = 32" and "nodes s hsh = None"
  shows "resolve X (RBytes hsh) (nodes s) = Inr None \<and>
    (left \<noteq> RBytes hsh \<longrightarrow>
       compute_diff X h (Suc n) left (RBytes hsh) path s =
       compute_diff X h (Suc n) left RNone path s) \<and>
    (right \<noteq> RBytes hsh \<longrightarrow>
       compute_diff X h (Suc n) (RBytes hsh) right path s =
       compute_diff X h (Suc n) RNone right path s)"
  using assms missing_right [of hsh s left X h n path] missing_left [of hsh s right X h n path]
  by (simp add: resolve_missing)

theorem missing_hash_is_none_witness:
  "length (hash_of 0x09) = 32 \<and> nodes (empty_state example_store) (hash_of 0x09) = None \<and>
   resolve fixture (RBytes (hash_of 0x09)) (nodes (empty_state example_store)) = Inr None \<and>
   compute_diff fixture record_call (Suc (Suc (Suc 0)))
     (RBytes (hash_of 0x01)) (RBytes (hash_of 0x09)) [] (empty_state example_store) =
   compute_diff fixture record_call (Suc (Suc (Suc 0)))
     (RBytes (hash_of 0x01)) RNone [] (empty_state example_store) \<and>
   compute_diff fixture record_call (Suc (Suc (Suc 0)))
     (RBytes (hash_of 0x09)) (RBytes (hash_of 0x01)) [] (empty_state example_store) =
   compute_diff fixture record_call (Suc (Suc (Suc 0)))
     RNone (RBytes (hash_of 0x01)) [] (empty_state example_store)"
proof -
  have len: "length (hash_of 0x09) = 32"
    by simp
  have miss: "nodes (empty_state example_store) (hash_of 0x09) = None"
    by (simp add: empty_state_def example_store_def)
  have ne: "RBytes (hash_of 0x01) \<noteq> RBytes (hash_of 0x09)"
    by simp
  from missing_hash_is_none [OF len miss, of fixture "RBytes (hash_of 0x01)" record_call
      "Suc (Suc 0)" "[]" "RBytes (hash_of 0x01)"] ne len miss
  show ?thesis
    by (simp del: compute_diff.simps)
qed

section \<open>The cases that pair an extension with a branch\<close>

text \<open>
  \<open>l_node.key_segment[0] == nibble\<close> compares an \<open>int\<close> with \<open>bytes([i])\<close> and is false
  at every turn of the loop. So the case (ExtensionNode, BranchNode) walks the right
  branch as the case (None, BranchNode) does, and the loop of the case (BranchNode,
  ExtensionNode) walks every slot of the left branch against \<open>None\<close>, without ever
  reaching the assignment to \<open>r_node.key_segment\<close>.
\<close>

lemma extension_branch_ignores_extension:
  "ks \<noteq> [] \<Longrightarrow>
   dispatch X rec h (Some (ExtensionNode ks sub)) (Some (BranchNode subs v)) right path s =
   dispatch X rec h None (Some (BranchNode subs v)) right path s"
  by (simp add: dispatch_def getitem_def)

lemma branch_extension_loop_never_matches:
  "branch_extension_loop rec l_subs right sub path idx ks s =
     (if idx = [] then Inr s
      else bindE (getitem ks 0) (\<lambda>k0.
        for_each idx (\<lambda>i s.
          bindE (getitem l_subs i) (\<lambda>l. rec l RNone (path @ nibble i) s)) s))"
proof (induction idx arbitrary: s)
  case Nil
  then show ?case by simp
next
  case (Cons i rest)
  show ?case
  proof (cases "getitem ks 0")
    case (Inl e)
    then show ?thesis by simp
  next
    case (Inr k0)
    then show ?thesis
      by (cases "getitem l_subs i") (auto simp add: Cons.IH bindE_def split: sum.splits)
  qed
qed

text \<open>
  In the cases (BranchNode, LeafNode) and (BranchNode, ExtensionNode) the argument of
  \<open>check_branch_node\<close> is \<open>r_node\<close>: the value of the left branch has no effect on the
  walk, whatever \<open>check_branch_node\<close> does.
\<close>

lemma branch_leaf_ignores_branch_value:
  "dispatch X rec h (Some (BranchNode subs v)) (Some (Leaf r)) right path s =
   dispatch X rec h (Some (BranchNode subs v')) (Some (Leaf r)) right path s"
  by (simp add: dispatch_def)

lemma branch_extension_ignores_branch_value:
  "dispatch X rec h (Some (BranchNode subs v)) (Some (ExtensionNode ks sub)) right path s =
   dispatch X rec h (Some (BranchNode subs v')) (Some (ExtensionNode ks sub)) right path s"
  by (simp add: dispatch_def)

text \<open>
  C1, on the example. The left root is the extension over the nibble 1, the right root
  the branch whose slot 1 holds the very reference the extension leads to. Descending
  through slot 1 would compare that reference with itself and report nothing there; the
  walk instead reports the two accounts below it as created, since it pairs slot 1 with
  \<open>None\<close> like every other slot.
\<close>

theorem extension_branch_example:
  "compute_diff fixture record_call (Suc (Suc (Suc 0)))
     (RBytes (hash_of 0x01)) (RBytes (hash_of 0x02)) [] (empty_state example_store)
   = Inr ((empty_state example_store)
       \<lparr>calls := [(key_A1, None, Some leaf_A1), (key_A2, None, Some leaf_A2),
                  (key_B, None, Some leaf_B)]\<rparr>)"
  by (simp add: run_simps example_store_def leaf_A1_def leaf_A2_def leaf_B_def
      key_A1_def key_A2_def key_B_def)

text \<open>
  C4. In the cases (BranchNode, LeafNode) and (BranchNode, ExtensionNode) the walk is the
  same for any two values of the left branch, empty or not, and for any
  \<open>check_branch_node\<close>: the left branch is not what is validated.
\<close>

theorem left_branch_value_unchecked:
  "compute_diff X h (Suc n) (RNode (BranchNode subs v)) (RNode (Leaf r)) path s =
   compute_diff X h (Suc n) (RNode (BranchNode subs v')) (RNode (Leaf r)) path s \<and>
   compute_diff X h (Suc n) (RNode (BranchNode subs v)) (RNode (ExtensionNode ks sub)) path s =
   compute_diff X h (Suc n) (RNode (BranchNode subs v')) (RNode (ExtensionNode ks sub)) path s"
  by (simp add: resolve_def branch_leaf_ignores_branch_value [of _ _ _ _ v _ _ _ _ v']
      branch_extension_ignores_branch_value [of _ _ _ _ v _ _ _ _ _ v'])

text \<open>
  The instance, with \<open>check_branch_node\<close> as the spec describes it: a branch that carries
  the value \<open>[1]\<close>, paired with a leaf of empty payload, is walked like the branch without
  a value, and no error is raised.
\<close>

theorem left_branch_value_unchecked_witness:
  "compute_diff fixture record_call (Suc (Suc 0))
     (RNode (BranchNode (replicate 16 (RBytes [])) [1]))
     (RNode (Leaf (LeafNode [1, 2] []))) []
     (empty_state example_store)
   = compute_diff fixture record_call (Suc (Suc 0))
     (RNode (BranchNode (replicate 16 (RBytes [])) []))
     (RNode (Leaf (LeafNode [1, 2] []))) []
     (empty_state example_store) \<and>
   compute_diff fixture record_call (Suc (Suc 0))
     (RNode (BranchNode (replicate 16 (RBytes [])) []))
     (RNode (Leaf (LeafNode [1, 2] []))) []
     (empty_state example_store)
   = Inr ((empty_state example_store)
       \<lparr>calls := [([0x12], None, Some (LeafNode [2] []))]\<rparr>)"
proof -
  have "compute_diff fixture record_call (Suc (Suc 0))
     (RNode (BranchNode (replicate 16 (RBytes [])) []))
     (RNode (Leaf (LeafNode [1, 2] []))) []
     (empty_state example_store)
   = Inr ((empty_state example_store)
       \<lparr>calls := [([0x12], None, Some (LeafNode [2] []))]\<rparr>)"
    by (simp add: run_simps)
  with left_branch_value_unchecked [of fixture record_call "Suc 0"
      "replicate 16 (RBytes [])" "[1]" "LeafNode [1, 2] []" "[]"
      "empty_state example_store" "[]"]
  show ?thesis
    by (simp del: compute_diff.simps)
qed

text \<open>
  With \<open>check_branch_node\<close> as the spec describes it, in the case (BranchNode, LeafNode):
  the well-formed branch of the example, paired with a leaf that carries a payload, is
  refused with the error meant for a branch with a value; a branch that does carry a
  value, paired with a leaf of empty payload, is walked without any error; the same
  branch on the right of \<open>None\<close> is refused, as the sibling case checks the branch.
\<close>

lemma branch_leaf_example:
  "compute_diff fixture record_call (Suc (Suc 0))
     (RBytes (hash_of 0xB0))
     (RNode (Leaf (LeafNode (5 # replicate 62 7) (hash_of 0x56)))) [1]
     (empty_state example_store)
   = Inl (ValueError ''Branch node has a value'') \<and>
   compute_diff fixture record_call (Suc (Suc 0))
     (RNode (BranchNode (replicate 16 (RBytes [])) [1]))
     (RNode (Leaf (LeafNode [1, 2] []))) []
     (empty_state example_store)
   = Inr ((empty_state example_store)
       \<lparr>calls := [([0x12], None, Some (LeafNode [2] []))]\<rparr>) \<and>
   compute_diff fixture record_call (Suc (Suc 0))
     RNone (RNode (BranchNode (replicate 16 (RBytes [])) [1])) []
     (empty_state example_store)
   = Inl (ValueError ''Branch node has a value'')"
  by (simp add: run_simps example_store_def hash_of_def)

section \<open>from\_tries on the example\<close>

lemma addr_of_eq [simp]: "addr_of a = addr_of b \<longleftrightarrow> a = b"
  by (simp add: addr_of_def)

text \<open>
  C7, on the example. The accounts A1 and A2 have the same leaf in both tries; only the
  account B is new. The accumulator of \<open>from_tries\<close> nevertheless holds an entry for A1 and
  one for A2, each recorded as created.
\<close>

theorem unchanged_accounts_reported:
  "from_tries fixture (Suc (Suc (Suc (Suc 0)))) example_db =
     Inr \<lparr>main_trie =
            [addr_of 0xA1 \<mapsto> (None, Some example_account),
             addr_of 0xA2 \<mapsto> (None, Some example_account),
             addr_of 0xA3 \<mapsto> (None, Some example_account)],
          storage_tries = Map.empty,
          nodes = example_store,
          address_preimages = db_address_preimages example_db,
          storage_key_preimages = Map.empty\<rparr>"
  by (simp add: from_tries_def example_db_def range16 resolve_def dispatch_def getitem_def
      nibble_def fixture_def check_branch_node_spec_def process_account_diff_def getkey_def
      optionally_def storage_root_ref_def example_account_def pack_replicate_62
      key_A1_def key_A2_def key_B_def
      example_store_def leaf_A1_def leaf_A2_def leaf_B_def)

section \<open>The storage values of from\_data\<close>

lemma U256_in_range: "0 \<le> v \<Longrightarrow> v < 2 ^ 256 \<Longrightarrow> U256 v = Inr (word_of_int v)"
  by (simp add: U256_def)

lemma zero_as_none_in_range:
  "0 \<le> v \<Longrightarrow> v < 2 ^ 256 \<Longrightarrow>
   zero_as_none v = Inr (if v = 0 then None else Some (word_of_int v))"
  by (simp add: zero_as_none_def U256_in_range)

lemma uint_u256: "0 \<le> v \<Longrightarrow> v < 2 ^ 256 \<Longrightarrow> uint (word_of_int v :: u256) = v"
  by (simp add: uint_word_of_int take_bit_int_eq_self)

text \<open>
  One turn of the loop over \<open>diff["storage"]\<close>, for a storage diff whose key parses to
  \<open>key\<close> and whose two values parse to integers in the range of U256: the entry written
  under \<open>key\<close> holds \<open>None\<close> on a side whose integer is 0 and otherwise the U256 of that
  integer; it is written into the inner map of the address, which is the empty map when
  the address had none before. Nothing else of the state changes.
\<close>

lemma parse_storage_diff_writes:
  assumes "bytes32_fromhex P (drop 2 (json_storageKey sd)) = Inr key"
    and "int_base16 P (drop 2 (json_preValue sd)) = Inr pre_int"
    and "int_base16 P (drop 2 (json_postValue sd)) = Inr post_int"
    and "0 \<le> pre_int" and "pre_int < 2 ^ 256"
    and "0 \<le> post_int" and "post_int < 2 ^ 256"
  shows "parse_storage_diff P address sd st =
     Inr (st\<lparr>storage_tries := (storage_tries st)
       (address \<mapsto>
          (case storage_tries st address of None \<Rightarrow> Map.empty | Some inner \<Rightarrow> inner)
          (key \<mapsto> (if pre_int = 0 then None else Some (word_of_int pre_int),
                    if post_int = 0 then None else Some (word_of_int post_int))))\<rparr>) \<and>
     uint (word_of_int pre_int :: u256) = pre_int \<and>
     uint (word_of_int post_int :: u256) = post_int"
  using assms
  by (simp add: parse_storage_diff_def zero_as_none_in_range set_storage_def uint_u256)

lemma hex_digit_simps [simp]:
  "hex_digit CHR ''0'' = Some 0" "hex_digit CHR ''1'' = Some 1"
  "hex_digit CHR ''a'' = Some 10" "hex_digit CHR ''b'' = Some 11"
  "hex_digit CHR ''f'' = Some 15"
  by (simp_all add: hex_digit_def)



section \<open>What a walk preserves\<close>

text \<open>
  A property of the state that every call of the handler preserves is preserved by the
  walk: the walker itself changes the state only through the handler.
\<close>

lemma for_each_preserves:
  assumes "\<And>i s s'. I s \<Longrightarrow> f i s = Inr s' \<Longrightarrow> I s'"
    and "I s" and "for_each xs f s = Inr s'"
  shows "I s'"
  using assms(2,3)
proof (induction xs arbitrary: s)
  case Nil
  then show ?case by simp
next
  case (Cons i rest)
  then show ?case
    by (auto simp add: bindE_eq_Inr dest: assms(1))
qed

lemma dispatch_preserves:
  assumes rec: "\<And>l r p s s'. I s \<Longrightarrow> rec l r p s = Inr s' \<Longrightarrow> I s'"
    and h: "\<And>k l r s s'. I s \<Longrightarrow> h k l r s = Inr s' \<Longrightarrow> I s'"
    and "I s" and "dispatch X rec h l_node r_node right path s = Inr s'"
  shows "I s'"
proof -
  have loop: "\<And>f s s'. (\<And>i s s'. I s \<Longrightarrow> f i s = Inr s' \<Longrightarrow> I s') \<Longrightarrow> I s \<Longrightarrow>
      for_each [0..<16] f s = Inr s' \<Longrightarrow> I s'"
    by (rule for_each_preserves)
  show ?thesis
    using assms(3,4)
    unfolding dispatch_def branch_extension_loop_never_matches
    by (auto simp add: bindE_eq_Inr split: option.splits node.splits if_splits
        elim!: loop [rotated 2] dest: rec h)
qed

lemma compute_diff_preserves:
  assumes h: "\<And>d k l r s s'. I s \<Longrightarrow> h d k l r s = Inr s' \<Longrightarrow> I s'"
  shows "I s \<Longrightarrow> compute_diff X h n l r p s = Inr s' \<Longrightarrow> I s'"
proof (induction n arbitrary: l r p s s')
  case 0
  then show ?case by simp
next
  case (Suc n)
  show ?case
  proof (cases "l = r")
    case True
    with Suc.prems show ?thesis by simp
  next
    case False
    with Suc.prems obtain ln rn where
      d: "dispatch X (\<lambda>l r p s'. compute_diff X h n l r p s') (h n) ln rn r p s = Inr s'"
      by (auto simp add: bindE_eq_Inr)
    show ?thesis
      by (rule dispatch_preserves [where I = I, OF _ _ Suc.prems(1) d]) (auto intro: Suc.IH h)
  qed
qed


text \<open>In particular the node store, when the handler leaves it alone.\<close>

lemma compute_diff_keeps_nodes:
  assumes "\<And>d k l r t t'. h d k l r t = Inr t' \<Longrightarrow> nodes t' = nodes t"
    and "compute_diff X h n l r p s = Inr s'"
  shows "nodes s' = nodes s"
proof (rule compute_diff_preserves [where I = "\<lambda>t. nodes t = nodes s", OF _ refl assms(2)])
  fix d k l r and t t' :: "'a StateDiff_scheme"
  assume "nodes t = nodes s" "h d k l r t = Inr t'"
  then show "nodes t' = nodes s" using assms(1) by metis
qed

lemma set_storage_fields:
  "main_trie (set_storage a k v s) = main_trie s"
  "dom (storage_tries (set_storage a k v s)) = insert a (dom (storage_tries s))"
  by (simp_all add: set_storage_def Let_def)

lemma process_storage_diff_result:
  "process_storage_diff X address k l r s = Inr s' \<Longrightarrow>
   \<exists>key v. s' = set_storage address key v s"
  by (auto simp add: process_storage_diff_def bindE_eq_Inr split: if_splits)

lemma process_storage_diff_nesting:
  assumes "address \<in> dom (main_trie s) \<and> dom (storage_tries s) \<subseteq> dom (main_trie s)"
    and "process_storage_diff X address k l r s = Inr s'"
  shows "address \<in> dom (main_trie s') \<and> dom (storage_tries s') \<subseteq> dom (main_trie s')"
proof -
  from assms(2) obtain key v where "s' = set_storage address key v s"
    using process_storage_diff_result by blast
  with assms(1) show ?thesis
    by (simp only: set_storage_fields) blast
qed

lemma process_account_diff_nesting:
  assumes "dom (storage_tries s) \<subseteq> dom (main_trie s)"
    and "process_account_diff X d k l r s = Inr s'"
  shows "dom (storage_tries s') \<subseteq> dom (main_trie s')"
proof -
  from assms(2) obtain address la ra where
    w: "compute_diff X (\<lambda>_. process_storage_diff X address) d
         (storage_root_ref la) (storage_root_ref ra) []
         (s\<lparr>main_trie := (main_trie s)(address \<mapsto> (la, ra))\<rparr>) = Inr s'"
    by (auto simp add: process_account_diff_def bindE_eq_Inr)
  let ?I = "\<lambda>s. address \<in> dom (main_trie s) \<and> dom (storage_tries s) \<subseteq> dom (main_trie s)"
  have start: "?I (s\<lparr>main_trie := (main_trie s)(address \<mapsto> (la, ra))\<rparr>)"
    using assms(1) by auto
  have "?I s'"
    by (rule compute_diff_preserves [where I = ?I, OF _ start w])
       (rule process_storage_diff_nesting)
  then show ?thesis by simp
qed

text \<open>
  C9. In the accumulator that \<open>from_tries\<close> returns, every address that has an entry in
  \<open>_storage_tries\<close> has one in \<open>_main_trie\<close>: the storage handler for an address only runs
  below the account handler, after it has written \<open>_main_trie[address]\<close>. This holds for
  any decoders and any depth.
\<close>

theorem storage_nesting:
  assumes "from_tries X depth tries = Inr diff"
  shows "dom (storage_tries diff) \<subseteq> dom (main_trie diff)"
proof -
  let ?I = "\<lambda>s :: StateDiff. dom (storage_tries s) \<subseteq> dom (main_trie s)"
  have start: "?I \<lparr>main_trie = Map.empty, storage_tries = Map.empty, nodes = db_nodes tries,
        address_preimages = db_address_preimages tries,
        storage_key_preimages = db_storage_key_preimages tries\<rparr>"
    by simp
  show ?thesis
    by (rule compute_diff_preserves [where I = ?I, OF _ start assms [unfolded from_tries_def]])
       (rule process_account_diff_nesting)
qed

lemma pack_replicate_64:
  "nibble_list_to_bytes_spec (replicate 64 x) = Inr (replicate 32 (x * 16 + x))"
  using pack_replicate [of 32 x] by simp

lemma created_account_run:
  "from_tries fixture (Suc (Suc 0)) created_account_db = Inr created_account_diff"
  by (simp add: from_tries_def created_account_db_def created_account_diff_def resolve_def
      dispatch_def fixture_def process_account_diff_def process_storage_diff_def getkey_def
      optionally_def storage_root_ref_def pack_replicate_64 decode_storage_value_def
      int_from_bytes_big_def U256_def set_storage_def)

text \<open>The instance: the run on the database of the created account.\<close>

theorem storage_nesting_witness:
  "from_tries fixture (Suc (Suc 0)) created_account_db = Inr created_account_diff \<and>
   dom (storage_tries created_account_diff) = {addr_of 0xC1} \<and>
   dom (storage_tries created_account_diff) \<subseteq> dom (main_trie created_account_diff)"
  using storage_nesting [OF created_account_run] created_account_run
  by (simp add: created_account_diff_def)

section \<open>The right-hand extension of the case (BranchNode, ExtensionNode)\<close>






section \<open>The width of the keys\<close>

lemma well_formed_resolved:
  "well_formed X store w ref \<Longrightarrow> resolve X ref store = Inr n \<Longrightarrow> well_formed_node X store w n"
  by (subst (asm) well_formed.simps)
     (auto simp add: well_formed_node_def split: option.splits node.splits if_splits)

lemma well_formed_RNone [simp]: "well_formed X store w RNone"
  by (subst well_formed.simps) simp

lemma well_formed_RNode:
  "well_formed X store w (RNode n) = well_formed_node X store w (Some n)"
  by (subst well_formed.simps)
     (auto simp add: well_formed_node_def resolve_def split: node.splits)


lemma getitem_list_all: "list_all P xs \<Longrightarrow> getitem xs i = Inr x \<Longrightarrow> P x"
  by (auto simp add: getitem_def list_all_length split: if_splits)

lemma getitem_0_nonempty: "xs \<noteq> [] \<Longrightarrow> getitem xs 0 = Inr (xs ! 0)"
  by (simp add: getitem_def)

lemma bindE_cong:
  "m = m' \<Longrightarrow> (\<And>x. m' = Inr x \<Longrightarrow> f x = g x) \<Longrightarrow> bindE m f = bindE m' g"
  by (cases m') simp_all

lemma for_each_agree:
  assumes "\<And>i s. I s \<Longrightarrow> f' i s = f i s"
    and "\<And>i s s'. I s \<Longrightarrow> f i s = Inr s' \<Longrightarrow> I s'"
    and "I s"
  shows "for_each xs f' s = for_each xs f s"
  using assms(3)
proof (induction xs arbitrary: s)
  case Nil
  then show ?case by simp
next
  case (Cons i rest)
  show ?case
  proof (cases "f i s")
    case (Inl e)
    with Cons.prems show ?thesis by (simp add: assms(1))
  next
    case (Inr s1)
    with Cons.prems have "I s1" using assms(2) by blast
    with Inr Cons.prems show ?thesis by (simp add: assms(1) Cons.IH)
  qed
qed

lemma startswith_length: "startswith xs p \<Longrightarrow> length p \<le> length xs"
  by (metis startswith_def length_take min.cobounded1 min.commute)

lemma startswith_proper: "startswith xs p \<Longrightarrow> xs \<noteq> p \<Longrightarrow> length p < length xs"
  by (metis startswith_def startswith_length le_neq_implies_less take_all order_refl)

text \<open>
  One activation of the walker, with the recursive calls taken as agreeing already: on
  well-formed nodes the \<open>match\<close> statement asks the packer for 64 nibbles only and hands
  the handler 32 bytes only.
\<close>

lemma dispatch_key_width:
  fixes X :: externals and pack' :: "bytes \<Rightarrow> error + bytes"
    and s :: "'a StateDiff_scheme"
  defines "X' \<equiv> X\<lparr>nibble_list_to_bytes := pack'\<rparr>"
  assumes rec: "\<And>l r p t v. nodes t = nodes s \<Longrightarrow> length p + v = 64 \<Longrightarrow>
      well_formed X (nodes s) v l \<Longrightarrow> well_formed X (nodes s) v r \<Longrightarrow>
      rec' l r p t = rec l r p t"
    and rec_keep: "\<And>l r p t t'. nodes t = nodes s \<Longrightarrow> rec l r p t = Inr t' \<Longrightarrow>
      nodes t' = nodes s"
    and hk: "\<And>k l r t. length k = 32 \<Longrightarrow> h' k l r t = h k l r t"
    and h_keep: "\<And>k l r t t'. nodes t = nodes s \<Longrightarrow> h k l r t = Inr t' \<Longrightarrow>
      nodes t' = nodes s"
    and packs: "\<And>k b. length k = 64 \<Longrightarrow> nibble_list_to_bytes X k = Inr b \<Longrightarrow> length b = 32"
    and agree_p: "\<And>k. length k = 64 \<Longrightarrow> pack' k = nibble_list_to_bytes X k"
    and len: "length path + w = 64"
    and wl: "well_formed_node X (nodes s) w l_node"
    and wr: "well_formed_node X (nodes s) w r_node"
  shows "dispatch X' rec' h' l_node r_node right path s =
         dispatch X rec h l_node r_node right path s"
proof -
  have pk: "nibble_list_to_bytes X' k = nibble_list_to_bytes X k" if "length k = 64" for k
    using that by (simp add: X'_def agree_p)
  have emit: "bindE (nibble_list_to_bytes X' k) (\<lambda>fp. h' fp a b t) =
      bindE (nibble_list_to_bytes X k) (\<lambda>fp. h fp a b t)" if "length k = 64" for k a b t
    using that packs [of k] by (auto simp add: pk hk intro!: bindE_cong)
  have emit_then: "bindE (nibble_list_to_bytes X' k) (\<lambda>fp. bindE (h' fp a b s) f') =
      bindE (nibble_list_to_bytes X k) (\<lambda>fp. bindE (h fp a b s) f)"
    if "length k = 64" "\<And>t. nodes t = nodes s \<Longrightarrow> f' t = f t"
    for k a b and f' f :: "'a StateDiff_scheme \<Rightarrow> error + 'a StateDiff_scheme"
  proof (cases "nibble_list_to_bytes X k")
    case (Inl e)
    with that(1) show ?thesis by (simp add: pk)
  next
    case (Inr fp)
    with that(1) have fp: "length fp = 32" using packs by blast
    show ?thesis
    proof (cases "h fp a b s")
      case (Inl e)
      with Inr fp that(1) show ?thesis by (simp add: pk hk)
    next
      case (Inr t)
      then have "nodes t = nodes s" using h_keep by blast
      with Inr \<open>nibble_list_to_bytes X k = Inr fp\<close> fp that show ?thesis by (simp add: pk hk)
    qed
  qed
  have chk: "check_branch_node X' = check_branch_node X"
    by (simp add: X'_def)
  have step: "rec' l r (path @ nibble i) t = rec l r (path @ nibble i) t"
    if "nodes t = nodes s" "0 < w" "well_formed X (nodes s) (w - 1) l"
      "well_formed X (nodes s) (w - 1) r"
    for l r i t
    using rec [of t "path @ nibble i" "w - 1" l r] that len by (simp add: nibble_def)
  have seg: "rec' l r (path @ ks) t = rec l r (path @ ks) t"
    if "nodes t = nodes s" "length ks \<le> w" "well_formed X (nodes s) (w - length ks) l"
      "well_formed X (nodes s) (w - length ks) r"
    for l r ks t
    using rec [of t "path @ ks" "w - length ks" l r] that len by simp
  have loop: "for_each xs f' s = for_each xs f s"
    if "\<And>i t. nodes t = nodes s \<Longrightarrow> f' i t = f i t"
      "\<And>i t t'. nodes t = nodes s \<Longrightarrow> f i t = Inr t' \<Longrightarrow> nodes t' = nodes s"
    for f' f :: "nat \<Rightarrow> 'a StateDiff_scheme \<Rightarrow> error + 'a StateDiff_scheme" and xs
  proof (rule for_each_agree [where I = "\<lambda>t. nodes t = nodes s"], goal_cases)
    case (1 i t)
    then show ?case by (rule that(1))
  next
    case (2 i t t')
    then show ?case by (rule that(2))
  next
    case 3
    show ?case by (rule refl)
  qed
  have slots: "for_each [0..<16] (\<lambda>i t. bindE (getitem subs i) (\<lambda>x.
        rec' (fl i x) (fr i x) (path @ nibble i) t)) s =
      for_each [0..<16] (\<lambda>i t. bindE (getitem subs i) (\<lambda>x.
        rec (fl i x) (fr i x) (path @ nibble i) t)) s"
    if "0 < w"
      "\<And>i x. getitem subs i = Inr x \<Longrightarrow> well_formed X (nodes s) (w - 1) (fl i x)"
      "\<And>i x. getitem subs i = Inr x \<Longrightarrow> well_formed X (nodes s) (w - 1) (fr i x)"
    for subs :: "ref list" and fl fr
  proof (rule loop)
    fix i and t :: "'a StateDiff_scheme" assume t: "nodes t = nodes s"
    show "bindE (getitem subs i) (\<lambda>x. rec' (fl i x) (fr i x) (path @ nibble i) t) =
          bindE (getitem subs i) (\<lambda>x. rec (fl i x) (fr i x) (path @ nibble i) t)"
    proof (rule bindE_cong [OF refl])
      fix x assume "getitem subs i = Inr x"
      then show "rec' (fl i x) (fr i x) (path @ nibble i) t =
          rec (fl i x) (fr i x) (path @ nibble i) t"
        using step [OF t that(1)] that(2,3) by blast
    qed
  next
    fix i and t t' :: "'a StateDiff_scheme" assume "nodes t = nodes s"
      "bindE (getitem subs i) (\<lambda>x. rec (fl i x) (fr i x) (path @ nibble i) t) = Inr t'"
    then show "nodes t' = nodes s"
      by (auto simp add: bindE_eq_Inr dest: rec_keep)
  qed
  show ?thesis
  proof (cases l_node)
    case None
    note l = this
    show ?thesis
    proof (cases r_node)
      case None
      with l show ?thesis by (simp add: dispatch_def)
    next
      case (Some rn)
      show ?thesis
      proof (cases rn)
        case (Leaf r)
        with wr Some have "length (path @ rest_of_key r) = 64"
          using len by (simp add: well_formed_node_def)
        with l Some Leaf show ?thesis by (simp add: dispatch_def emit)
      next
        case (ExtensionNode ks sub)
        with wr Some have "length ks \<le> w" "well_formed X (nodes s) (w - length ks) sub"
          by (simp_all add: well_formed_node_def)
        with l Some ExtensionNode show ?thesis by (simp add: dispatch_def seg)
      next
        case (BranchNode subs v)
        with wr Some have w: "0 < w" "list_all (well_formed X (nodes s) (w - 1)) subs"
          by (simp_all add: well_formed_node_def)
        from l Some BranchNode show ?thesis
          by (simp add: dispatch_def chk
              slots [of subs "\<lambda>i x. RNone" "\<lambda>i x. x", OF w(1) _ getitem_list_all [OF w(2)]])
      qed
    qed
  next
    case (Some ln)
    note l = this
    show ?thesis
    proof (cases ln)
      case (Leaf ll)
      note ln = this
      from wl l ln have kl: "length (rest_of_key ll) = w"
        by (simp add: well_formed_node_def)
      then have el: "length (path @ rest_of_key ll) = 64"
        using len by simp
      show ?thesis
      proof (cases r_node)
        case None
        with l ln show ?thesis by (simp add: dispatch_def emit [OF el])
      next
        case (Some rn)
        note r = this
        show ?thesis
        proof (cases rn)
          case (Leaf rl)
          with wr r have kr: "length (rest_of_key rl) = w"
            by (simp add: well_formed_node_def)
          then have er: "length (path @ rest_of_key rl) = 64"
            using len by simp
          have two:
            "bindE (nibble_list_to_bytes X' (path @ rest_of_key ll)) (\<lambda>path_left.
             bindE (nibble_list_to_bytes X' (path @ rest_of_key rl)) (\<lambda>path_right.
             bindE (h' path_left (Some ll) None s) (\<lambda>s. h' path_right None (Some rl) s))) =
             bindE (nibble_list_to_bytes X (path @ rest_of_key ll)) (\<lambda>path_left.
             bindE (nibble_list_to_bytes X (path @ rest_of_key rl)) (\<lambda>path_right.
             bindE (h path_left (Some ll) None s) (\<lambda>s. h path_right None (Some rl) s)))"
          proof (cases "nibble_list_to_bytes X (path @ rest_of_key ll)")
            case (Inl e)
            then show ?thesis by (simp add: pk [OF el])
          next
            case (Inr pl)
            note pl = this
            then have lpl: "length pl = 32" using packs [OF el] by blast
            show ?thesis
            proof (cases "nibble_list_to_bytes X (path @ rest_of_key rl)")
              case (Inl e)
              with pl show ?thesis by (simp add: pk [OF el] pk [OF er])
            next
              case (Inr pr)
              then have lpr: "length pr = 32" using packs [OF er] by blast
              have "h' pr None (Some rl) = h pr None (Some rl)"
                by (rule ext) (rule hk [OF lpr])
              with Inr pl lpl show ?thesis by (simp add: pk [OF el] pk [OF er] hk)
            qed
          qed
          show ?thesis
          proof (cases "rest_of_key ll = rest_of_key rl")
            case True
            with l ln r Leaf show ?thesis by (simp add: dispatch_def emit [OF er])
          next
            case False
            with l ln r Leaf show ?thesis by (simp add: dispatch_def two)
          qed
        next
          case (ExtensionNode ks sub)
          with wr r have e: "ks \<noteq> []" "length ks \<le> w"
            "well_formed X (nodes s) (w - length ks) sub"
            by (simp_all add: well_formed_node_def)
          have short: "well_formed X (nodes s) (w - length ks)
              (RNode (Leaf (LeafNode (drop (length ks) (rest_of_key ll)) (leaf_value ll))))"
            using kl e(2) by (simp add: well_formed_RNode well_formed_node_def)
          have del:
            "bindE (nibble_list_to_bytes X' (path @ rest_of_key ll)) (\<lambda>path_left.
             bindE (h' path_left (Some ll) None s) (\<lambda>s. rec' RNone sub (path @ ks) s)) =
             bindE (nibble_list_to_bytes X (path @ rest_of_key ll)) (\<lambda>path_left.
             bindE (h path_left (Some ll) None s) (\<lambda>s. rec RNone sub (path @ ks) s))"
            by (rule emit_then [OF el]) (simp add: seg e)
          from l ln r ExtensionNode show ?thesis
            by (simp add: dispatch_def seg e short del)
        next
          case (BranchNode subs v)
          with wr r have b: "0 < w" "list_all (well_formed X (nodes s) (w - 1)) subs"
            by (simp_all add: well_formed_node_def)
          from kl b(1) have ne: "rest_of_key ll \<noteq> []" by auto
          let ?short = "RNode (Leaf (LeafNode (drop 1 (rest_of_key ll)) (leaf_value ll)))"
          have short: "well_formed X (nodes s) (w - 1) ?short"
            using kl by (simp add: well_formed_RNode well_formed_node_def)
          have body: "(\<lambda>i t. bindE (getitem (rest_of_key ll) 0) (\<lambda>k0.
                if int i \<noteq> uint k0
                then bindE (getitem subs i) (\<lambda>r. R RNone r (path @ nibble i) t)
                else bindE (getitem subs i) (\<lambda>r. R ?short r (path @ nibble i) t))) =
              (\<lambda>i t. bindE (getitem subs i) (\<lambda>x.
                R (if int i \<noteq> uint (rest_of_key ll ! 0) then RNone else ?short) x
                  (path @ nibble i) t))"
            for R :: "'a StateDiff_scheme walk"
            by (simp add: fun_eq_iff getitem_0_nonempty [OF ne])
          have sl: "for_each [0..<16] (\<lambda>i t. bindE (getitem subs i) (\<lambda>x.
                rec' (if int i \<noteq> uint (rest_of_key ll ! 0) then RNone else ?short) x
                  (path @ nibble i) t)) s =
              for_each [0..<16] (\<lambda>i t. bindE (getitem subs i) (\<lambda>x.
                rec (if int i \<noteq> uint (rest_of_key ll ! 0) then RNone else ?short) x
                  (path @ nibble i) t)) s"
            by (rule slots [OF b(1)]) (auto simp del: One_nat_def intro: short getitem_list_all [OF b(2)])
          show ?thesis
            unfolding l ln r BranchNode dispatch_def
            by (simp only: option.case node.case prod.case chk body sl)
        qed
      qed
    next
      case (ExtensionNode lks lsub)
      note ln = this
      from wl l ln have e: "lks \<noteq> []" "length lks \<le> w"
        "well_formed X (nodes s) (w - length lks) lsub"
        by (simp_all add: well_formed_node_def)
      show ?thesis
      proof (cases r_node)
        case None
        with l ln show ?thesis by (simp add: dispatch_def seg e)
      next
        case (Some rn)
        note r = this
        show ?thesis
        proof (cases rn)
          case (Leaf rl)
          with wr r have kr: "length (rest_of_key rl) = w"
            by (simp add: well_formed_node_def)
          then have er: "length (path @ rest_of_key rl) = 64"
            using len by simp
          have short: "well_formed X (nodes s) (w - length lks)
              (RNode (Leaf (LeafNode (drop (length lks) (rest_of_key rl)) (leaf_value rl))))"
            using kr e(2) by (simp add: well_formed_RNode well_formed_node_def)
          have cre:
            "bindE (nibble_list_to_bytes X' (path @ rest_of_key rl)) (\<lambda>path_right.
             bindE (h' path_right None (Some rl) s) (\<lambda>s. rec' lsub RNone (path @ lks) s)) =
             bindE (nibble_list_to_bytes X (path @ rest_of_key rl)) (\<lambda>path_right.
             bindE (h path_right None (Some rl) s) (\<lambda>s. rec lsub RNone (path @ lks) s))"
            by (rule emit_then [OF er]) (simp add: seg e)
          from l ln r Leaf show ?thesis
            by (simp add: dispatch_def seg e short cre)
        next
          case (ExtensionNode rks rsub)
          with wr r have f: "rks \<noteq> []" "length rks \<le> w"
            "well_formed X (nodes s) (w - length rks) rsub"
            by (simp_all add: well_formed_node_def)
          have both: "bindE (rec' lsub RNone (path @ lks) s) (\<lambda>s. rec' RNone rsub (path @ rks) s) =
              bindE (rec lsub RNone (path @ lks) s) (\<lambda>s. rec RNone rsub (path @ rks) s)"
          proof (rule bindE_cong)
            show "rec' lsub RNone (path @ lks) s = rec lsub RNone (path @ lks) s"
              by (simp add: seg e)
          next
            fix t assume "rec lsub RNone (path @ lks) s = Inr t"
            then have "nodes t = nodes s" using rec_keep by blast
            then show "rec' RNone rsub (path @ rks) t = rec RNone rsub (path @ rks) t"
              by (simp add: seg f)
          qed
          have cut_l: "well_formed X (nodes s) (w - length rks)
              (RNode (ExtensionNode (drop (length rks) lks) lsub))"
            if "startswith lks rks" "lks \<noteq> rks"
          proof -
            from that have "length rks < length lks" by (rule startswith_proper)
            moreover have "w - length rks - (length lks - length rks) = w - length lks"
              using \<open>length rks < length lks\<close> e(2) by simp
            ultimately show ?thesis
              using e by (simp add: well_formed_RNode well_formed_node_def)
          qed
          have cut_r: "well_formed X (nodes s) (w - length lks)
              (RNode (ExtensionNode (drop (length lks) rks) rsub))"
            if "startswith rks lks" "lks \<noteq> rks"
          proof -
            from that have "length lks < length rks" using startswith_proper [of rks lks] by simp
            moreover have "w - length lks - (length rks - length lks) = w - length rks"
              using \<open>length lks < length rks\<close> f(2) by simp
            ultimately show ?thesis
              using f by (simp add: well_formed_RNode well_formed_node_def)
          qed
          show ?thesis
          proof (cases "lks = rks")
            case True
            with f(3) have "well_formed X (nodes s) (w - length lks) rsub" by simp
            from seg [OF refl e(2) e(3) this] l ln r ExtensionNode True
            show ?thesis by (simp add: dispatch_def)
          next
            case False
            note ne = this
            show ?thesis
            proof (cases "startswith lks rks")
              case True
              from seg [OF refl f(2) cut_l [OF True ne] f(3)] l ln r ExtensionNode True ne
              show ?thesis by (simp add: dispatch_def)
            next
              case False
              note nl = this
              show ?thesis
              proof (cases "startswith rks lks")
                case True
                from seg [OF refl e(2) e(3) cut_r [OF True ne]] l ln r ExtensionNode True ne nl
                show ?thesis by (simp add: dispatch_def)
              next
                case False
                with both l ln r ExtensionNode ne nl
                show ?thesis by (simp add: dispatch_def)
              qed
            qed
          qed
        next
          case (BranchNode subs v)
          with wr r have b: "0 < w" "list_all (well_formed X (nodes s) (w - 1)) subs"
            by (simp_all add: well_formed_node_def)
          have body: "(\<lambda>i t. bindE (getitem lks 0) (\<lambda>k0.
                if PyInt (uint k0) = PyBytes (nibble i)
                then bindE (getitem subs i) (\<lambda>r.
                  R (if length lks = 1 then lsub else RNode (ExtensionNode (drop 1 lks) lsub))
                    r (path @ nibble i) t)
                else bindE (getitem subs i) (\<lambda>r. R RNone r (path @ nibble i) t))) =
              (\<lambda>i t. bindE (getitem subs i) (\<lambda>x. R RNone x (path @ nibble i) t))"
            for R :: "'a StateDiff_scheme walk"
            by (simp add: fun_eq_iff getitem_0_nonempty [OF e(1)])
          have sl: "for_each [0..<16] (\<lambda>i t. bindE (getitem subs i) (\<lambda>x.
                rec' RNone x (path @ nibble i) t)) s =
              for_each [0..<16] (\<lambda>i t. bindE (getitem subs i) (\<lambda>x.
                rec RNone x (path @ nibble i) t)) s"
            by (rule slots [OF b(1)]) (auto simp del: One_nat_def intro: getitem_list_all [OF b(2)])
          show ?thesis
            unfolding l ln r BranchNode dispatch_def
            by (simp only: option.case node.case prod.case chk body sl)
        qed
      qed
    next
      case (BranchNode lsubs lv)
      note ln = this
      from wl l ln have b: "0 < w" "list_all (well_formed X (nodes s) (w - 1)) lsubs"
        by (simp_all add: well_formed_node_def)
      show ?thesis
      proof (cases r_node)
        case None
        have sl: "for_each [0..<16] (\<lambda>i t. bindE (getitem lsubs i) (\<lambda>x.
              rec' x RNone (path @ nibble i) t)) s =
            for_each [0..<16] (\<lambda>i t. bindE (getitem lsubs i) (\<lambda>x.
              rec x RNone (path @ nibble i) t)) s"
          by (rule slots [OF b(1)]) (auto simp del: One_nat_def intro: getitem_list_all [OF b(2)])
        show ?thesis
          unfolding l ln None dispatch_def
          by (simp only: option.case node.case prod.case chk sl)
      next
        case (Some rn)
        note r = this
        show ?thesis
        proof (cases rn)
          case (Leaf rl)
          with wr r have kr: "length (rest_of_key rl) = w"
            by (simp add: well_formed_node_def)
          from kr b(1) have ne: "rest_of_key rl \<noteq> []" by auto
          let ?short = "RNode (Leaf (LeafNode (drop 1 (rest_of_key rl)) (leaf_value rl)))"
          have short: "well_formed X (nodes s) (w - 1) ?short"
            using kr by (simp add: well_formed_RNode well_formed_node_def)
          have body: "(\<lambda>i t. bindE (getitem (rest_of_key rl) 0) (\<lambda>k0.
                if int i \<noteq> uint k0
                then bindE (getitem lsubs i) (\<lambda>l. R l RNone (path @ nibble i) t)
                else bindE (getitem lsubs i) (\<lambda>l. R l ?short (path @ nibble i) t))) =
              (\<lambda>i t. bindE (getitem lsubs i) (\<lambda>x.
                R x (if int i \<noteq> uint (rest_of_key rl ! 0) then RNone else ?short)
                  (path @ nibble i) t))"
            for R :: "'a StateDiff_scheme walk"
            by (simp add: fun_eq_iff getitem_0_nonempty [OF ne])
          have sl: "for_each [0..<16] (\<lambda>i t. bindE (getitem lsubs i) (\<lambda>x.
                rec' x (if int i \<noteq> uint (rest_of_key rl ! 0) then RNone else ?short)
                  (path @ nibble i) t)) s =
              for_each [0..<16] (\<lambda>i t. bindE (getitem lsubs i) (\<lambda>x.
                rec x (if int i \<noteq> uint (rest_of_key rl ! 0) then RNone else ?short)
                  (path @ nibble i) t)) s"
            by (rule slots [OF b(1)]) (auto simp del: One_nat_def intro: short getitem_list_all [OF b(2)])
          show ?thesis
            unfolding l ln r Leaf dispatch_def
            by (simp only: option.case node.case prod.case chk body sl)
        next
          case (ExtensionNode rks rsub)
          with wr r have f: "rks \<noteq> []"
            by (simp_all add: well_formed_node_def)
          have bel: "branch_extension_loop R lsubs right rsub path [0..<16] rks s =
              for_each [0..<16] (\<lambda>i t. bindE (getitem lsubs i) (\<lambda>x.
                R x RNone (path @ nibble i) t)) s"
            for R :: "'a StateDiff_scheme walk"
            by (simp add: branch_extension_loop_never_matches getitem_0_nonempty [OF f])
          have sl: "for_each [0..<16] (\<lambda>i t. bindE (getitem lsubs i) (\<lambda>x.
                rec' x RNone (path @ nibble i) t)) s =
              for_each [0..<16] (\<lambda>i t. bindE (getitem lsubs i) (\<lambda>x.
                rec x RNone (path @ nibble i) t)) s"
            by (rule slots [OF b(1)]) (auto simp del: One_nat_def intro: getitem_list_all [OF b(2)])
          show ?thesis
            unfolding l ln r ExtensionNode dispatch_def
            by (simp only: option.case node.case prod.case chk bel sl)
        next
          case (BranchNode rsubs rv)
          with wr r have c: "list_all (well_formed X (nodes s) (w - 1)) rsubs"
            by (simp_all add: well_formed_node_def)
          have sl: "for_each [0..<16] (\<lambda>i t. bindE (getitem lsubs i) (\<lambda>l.
                bindE (getitem rsubs i) (\<lambda>r. rec' l r (path @ nibble i) t))) s =
              for_each [0..<16] (\<lambda>i t. bindE (getitem lsubs i) (\<lambda>l.
                bindE (getitem rsubs i) (\<lambda>r. rec l r (path @ nibble i) t))) s"
          proof (rule loop)
            fix i and t :: "'a StateDiff_scheme" assume t: "nodes t = nodes s"
            show "bindE (getitem lsubs i) (\<lambda>l.
                bindE (getitem rsubs i) (\<lambda>r. rec' l r (path @ nibble i) t)) =
              bindE (getitem lsubs i) (\<lambda>l.
                bindE (getitem rsubs i) (\<lambda>r. rec l r (path @ nibble i) t))"
            proof (rule bindE_cong [OF refl], rule bindE_cong [OF refl])
              fix x y assume "getitem lsubs i = Inr x" "getitem rsubs i = Inr y"
              then show "rec' x y (path @ nibble i) t = rec x y (path @ nibble i) t"
                using step [OF t b(1)] getitem_list_all [OF b(2)] getitem_list_all [OF c]
                by blast
            qed
          next
            fix i and t t' :: "'a StateDiff_scheme" assume "nodes t = nodes s"
              "bindE (getitem lsubs i) (\<lambda>l.
                bindE (getitem rsubs i) (\<lambda>r. rec l r (path @ nibble i) t)) = Inr t'"
            then show "nodes t' = nodes s"
              by (auto simp add: bindE_eq_Inr dest: rec_keep)
          qed
          show ?thesis
            unfolding l ln r BranchNode dispatch_def
            by (simp only: option.case node.case prod.case chk sl)
        qed
      qed
    qed
  qed
qed


lemma resolve_pack [simp]:
  "resolve (X\<lparr>nibble_list_to_bytes := p\<rparr>) ref store = resolve X ref store"
  by (simp add: resolve_def split: ref.splits)

lemma key_width_general:
  fixes s :: "'a StateDiff_scheme"
  assumes packs: "\<And>k b. length k = 64 \<Longrightarrow> nibble_list_to_bytes X k = Inr b \<Longrightarrow> length b = 32"
    and keep: "\<And>d k l r t t'. h d k l r t = Inr t' \<Longrightarrow> nodes t' = nodes t"
    and agree_h: "\<And>d k l r t. length k = 32 \<Longrightarrow> h' d k l r t = h d k l r t"
    and agree_p: "\<And>k. length k = 64 \<Longrightarrow> pack' k = nibble_list_to_bytes X k"
  shows "nodes t = nodes s \<Longrightarrow> length p + w = 64 \<Longrightarrow>
     well_formed X (nodes s) w l \<Longrightarrow> well_formed X (nodes s) w r \<Longrightarrow>
     compute_diff (X\<lparr>nibble_list_to_bytes := pack'\<rparr>) h' n l r p t =
     compute_diff X h n l r p t"
proof (induction n arbitrary: l r p t w)
  case 0
  show ?case by simp
next
  case (Suc n)
  note eq = Suc.prems(1)
  show ?case
  proof (cases "l = r")
    case True
    then show ?thesis by simp
  next
    case False
    note ne = this
    show ?thesis
    proof (cases "resolve X l (nodes t)")
      case (Inl e)
      with ne show ?thesis by simp
    next
      case (Inr ln)
      note rl = this
      show ?thesis
      proof (cases "resolve X r (nodes t)")
        case (Inl e)
        with ne rl show ?thesis by simp
      next
        case (Inr rn)
        have wl: "well_formed_node X (nodes t) w ln"
          using well_formed_resolved [of X "nodes t" w l ln] Suc.prems(3) rl eq by simp
        have wr: "well_formed_node X (nodes t) w rn"
          using well_formed_resolved [of X "nodes t" w r rn] Suc.prems(4) Inr eq by simp
        have "dispatch (X\<lparr>nibble_list_to_bytes := pack'\<rparr>)
            (\<lambda>l r p s'. compute_diff (X\<lparr>nibble_list_to_bytes := pack'\<rparr>) h' n l r p s')
            (h' n) ln rn r p t =
          dispatch X (\<lambda>l r p s'. compute_diff X h n l r p s') (h n) ln rn r p t"
        proof (rule dispatch_key_width [where w = w], goal_cases)
          case (1 l r p u v)
          then show ?case using Suc.IH [of u p v l r] eq by simp
        next
          case (2 l r p u u')
          have "nodes u' = nodes u"
            by (rule compute_diff_keeps_nodes [where h = h and X = X, OF keep 2(2)])
          with 2(1) show ?case by simp
        next
          case (3 k l r u)
          then show ?case by (rule agree_h)
        next
          case (4 k l r u u')
          then show ?case using keep by metis
        next
          case (5 k b)
          then show ?case by (rule packs)
        next
          case (6 k)
          then show ?case by (rule agree_p)
        next
          case 7
          show ?case by (rule Suc.prems(2))
        next
          case 8
          show ?case by (rule wl)
        next
          case 9
          show ?case by (rule wr)
        qed
        with ne rl Inr show ?thesis by simp
      qed
    qed
  qed
qed


text \<open>
  C8. Both references are well formed for the nibbles that remain of a 64-nibble key after
  \<open>path\<close>, \<open>nibble_list_to_bytes\<close> turns 64 nibbles into 32 bytes, and the handler leaves
  the node store alone (as both handlers of the module do). Then the walk is the same when
  the packer is replaced by any function that agrees with it on lists of 64 nibbles and
  the handler by any that agrees with it on keys of 32 bytes: what either would do on
  another width never matters, because every list packed has 64 nibbles and every key
  handed to the handler has 32 bytes.
\<close>

theorem key_width:
  fixes s :: "'a StateDiff_scheme"
  assumes "well_formed X (nodes s) (64 - length path) left"
    and "well_formed X (nodes s) (64 - length path) right"
    and "length path \<le> 64"
    and "\<And>k b. length k = 64 \<Longrightarrow> nibble_list_to_bytes X k = Inr b \<Longrightarrow> length b = 32"
    and "\<And>d k l r t t'. h d k l r t = Inr t' \<Longrightarrow> nodes t' = nodes t"
    and "\<And>d k l r t. length k = 32 \<Longrightarrow> h' d k l r t = h d k l r t"
    and "\<And>k. length k = 64 \<Longrightarrow> pack' k = nibble_list_to_bytes X k"
  shows "compute_diff (X\<lparr>nibble_list_to_bytes := pack'\<rparr>) h' depth left right path s =
         compute_diff X h depth left right path s"
proof (rule key_width_general [where s = s and w = "64 - length path"])
  show "length path + (64 - length path) = 64"
    using assms(3) by simp
qed (use assms in auto)

lemma pack_length:
  "nibble_list_to_bytes_spec k = Inr b \<Longrightarrow> length k = 2 * length b"
  by (induction k arbitrary: b rule: nibble_list_to_bytes_spec.induct)
     (auto simp add: bindE_eq_Inr)

lemma example_well_formed:
  "well_formed fixture (nodes (empty_state example_store)) 64 (RBytes (hash_of 0x01))"
  "well_formed fixture (nodes (empty_state example_store)) 64 (RBytes (hash_of 0x02))"
  by (simp_all add: well_formed.simps resolve_def example_store_def empty_state_def
      leaf_A1_def leaf_A2_def leaf_B_def)

theorem key_width_witness:
  "well_formed fixture (nodes (empty_state example_store)) (64 - length ([] :: bytes))
     (RBytes (hash_of 0x01)) \<and>
   well_formed fixture (nodes (empty_state example_store)) (64 - length ([] :: bytes))
     (RBytes (hash_of 0x02)) \<and>
   compute_diff (fixture\<lparr>nibble_list_to_bytes := only_paths_of_64 nibble_list_to_bytes_spec\<rparr>)
     (only_keys_of_32 record_call) (Suc (Suc (Suc 0)))
     (RBytes (hash_of 0x01)) (RBytes (hash_of 0x02)) [] (empty_state example_store) =
   compute_diff fixture record_call (Suc (Suc (Suc 0)))
     (RBytes (hash_of 0x01)) (RBytes (hash_of 0x02)) [] (empty_state example_store) \<and>
   length key_A1 = 32 \<and> length key_A2 = 32 \<and> length key_B = 32"
proof -
  have wl: "well_formed fixture (nodes (empty_state example_store)) (64 - length ([] :: bytes))
      (RBytes (hash_of 0x01))"
    using example_well_formed(1) by simp
  have wr: "well_formed fixture (nodes (empty_state example_store)) (64 - length ([] :: bytes))
      (RBytes (hash_of 0x02))"
    using example_well_formed(2) by simp
  have packs: "length b = 32"
    if "length k = 64" "nibble_list_to_bytes fixture k = Inr b" for k b
    using that pack_length [of k b] by (simp add: fixture_def)
  have keep: "nodes t' = nodes t" if "record_call d k l r t = Inr t'" for d k l r t t'
    using that by (auto simp add: record_call_def)
  have agree_h: "only_keys_of_32 record_call d k l r t = record_call d k l r t"
    if "length k = 32" for d k l r t
    using that by (simp add: only_keys_of_32_def)
  have agree_p: "only_paths_of_64 nibble_list_to_bytes_spec k = nibble_list_to_bytes fixture k"
    if "length k = 64" for k
    using that by (simp add: only_paths_of_64_def fixture_def)
  have "compute_diff
      (fixture\<lparr>nibble_list_to_bytes := only_paths_of_64 nibble_list_to_bytes_spec\<rparr>)
      (only_keys_of_32 record_call) (Suc (Suc (Suc 0)))
      (RBytes (hash_of 0x01)) (RBytes (hash_of 0x02)) [] (empty_state example_store) =
    compute_diff fixture record_call (Suc (Suc (Suc 0)))
      (RBytes (hash_of 0x01)) (RBytes (hash_of 0x02)) [] (empty_state example_store)"
    by (rule key_width [OF wl wr _ packs keep agree_h agree_p]) simp_all
  with wl wr show ?thesis
    by (simp add: key_A1_def key_A2_def key_B_def del: compute_diff.simps)
qed

text \<open>
  Read on the recorded calls: if the walk returns, every key it has added to the record
  has 32 bytes.
\<close>

lemma recorded_keys_have_32_bytes:
  fixes s :: Traced
  assumes wl: "well_formed X (nodes s) (64 - length path) left"
    and wr: "well_formed X (nodes s) (64 - length path) right"
    and len: "length path \<le> 64"
    and packs: "\<And>k b. length k = 64 \<Longrightarrow> nibble_list_to_bytes X k = Inr b \<Longrightarrow> length b = 32"
    and before: "list_all (\<lambda>c. length (fst c) = 32) (calls s)"
    and run: "compute_diff X record_call depth left right path s = Inr s'"
  shows "list_all (\<lambda>c. length (fst c) = 32) (calls s')"
proof -
  have keep: "nodes t' = nodes t" if "record_call d k l r t = Inr t'" for d k l r t t'
    using that by (auto simp add: record_call_def)
  have same: "X\<lparr>nibble_list_to_bytes := nibble_list_to_bytes X\<rparr> = X"
    by simp
  have "compute_diff (X\<lparr>nibble_list_to_bytes := nibble_list_to_bytes X\<rparr>)
      (only_keys_of_32 record_call) depth left right path s =
    compute_diff X record_call depth left right path s"
  proof (rule key_width_general [where s = s and w = "64 - length path", OF packs keep])
    show "length path + (64 - length path) = 64"
      using len by simp
  qed (simp_all add: only_keys_of_32_def wl wr)
  with run have guarded:
    "compute_diff X (only_keys_of_32 record_call) depth left right path s = Inr s'"
    by (simp only: same)
  show ?thesis
  proof (rule compute_diff_preserves
      [where I = "\<lambda>t. list_all (\<lambda>c. length (fst c) = 32) (calls t)", OF _ before guarded])
    fix d k l r and t t' :: Traced
    assume "list_all (\<lambda>c. length (fst c) = 32) (calls t)"
      "only_keys_of_32 record_call d k l r t = Inr t'"
    then show "list_all (\<lambda>c. length (fst c) = 32) (calls t')"
      by (auto simp add: only_keys_of_32_def record_call_def split: if_splits)
  qed
qed

text \<open>The two handlers of the module leave the node store alone.\<close>

lemma process_storage_diff_keeps_nodes:
  "process_storage_diff X address k l r s = Inr s' \<Longrightarrow> nodes s' = nodes s"
  using process_storage_diff_result [of X address k l r s s']
  by (auto simp add: set_storage_def Let_def)

lemma process_account_diff_keeps_nodes:
  assumes "process_account_diff X d k l r s = Inr s'"
  shows "nodes s' = nodes s"
proof -
  from assms obtain address la ra where
    w: "compute_diff X (\<lambda>_. process_storage_diff X address) d
         (storage_root_ref la) (storage_root_ref ra) []
         (s\<lparr>main_trie := (main_trie s)(address \<mapsto> (la, ra))\<rparr>) = Inr s'"
    by (auto simp add: process_account_diff_def bindE_eq_Inr)
  have "nodes s' = nodes (s\<lparr>main_trie := (main_trie s)(address \<mapsto> (la, ra))\<rparr>)"
    by (rule compute_diff_keeps_nodes [OF _ w]) (rule process_storage_diff_keeps_nodes)
  then show ?thesis by simp
qed

section \<open>What from\_data records\<close>















lemma more_hex_digits [simp]:
  "hex_digit CHR ''2'' = Some 2" "hex_digit CHR ''5'' = Some 5" "hex_digit CHR ''c'' = Some 12"
  by (simp_all add: hex_digit_def)








end
